theory Spec2Isabelle
  imports Main "HOL-Library.Multiset" "HOL-Library.Extended_Nat"
begin

section \<open>Entity model (game/card.py, game/noble.py, game/player.py)\<close>

text \<open>
  The rules engine of the Splendor-like game, embedded function by function.
  The token dictionaries of the board and the players become partial maps: a
  lookup \<^verbatim>\<open>d.get(c, 0)\<close> is \<open>dget d c\<close>, and a subscript \<^verbatim>\<open>d[c]\<close> on an
  absent key is the error value \<open>KeyError\<close>.  The dictionary literals of the
  catalog (card costs, noble requirements) are kept as their item lists, in
  the order written.  Python lists are HOL lists, \<^verbatim>\<open>pop()\<close> taking the last
  element.  A value of type \<open>error + 'a\<close> is an exception (\<open>Inl\<close>) or a normal
  return (\<open>Inr\<close>).
\<close>

datatype GemColor = WHITE | BLUE | GREEN | RED | BLACK | GOLD

datatype error = KeyError | IndexError | AttributeError | ZeroDivisionError

definition ebind :: "error + 'a \<Rightarrow> ('a \<Rightarrow> error + 'b) \<Rightarrow> error + 'b" where
  "ebind m f = (case m of Inl e \<Rightarrow> Inl e | Inr x \<Rightarrow> f x)"

type_synonym gem_dict = "GemColor \<rightharpoonup> int"

text \<open>The declaration order of the enum; also the key order of the default dictionaries.\<close>

definition all_colors :: "GemColor list" where
  "all_colors = [WHITE, BLUE, GREEN, RED, BLACK, GOLD]"

text \<open>The five colours that \<^verbatim>\<open>_initialize_gems\<close> and the action generators loop over.\<close>

definition basic_colors :: "GemColor list" where
  "basic_colors = [WHITE, BLUE, GREEN, RED, BLACK]"

definition dget :: "gem_dict \<Rightarrow> GemColor \<Rightarrow> int" where
  "dget d c = (case d c of None \<Rightarrow> 0 | Some v \<Rightarrow> v)"

text \<open>
  \<^verbatim>\<open>d.items()\<close> of a token dictionary.  Python iterates in insertion order;
  the loops of the engine over such a dictionary sum the values, pick one key
  at random, or update the entry of the key at hand, so the enum order stands
  for the insertion order.
\<close>

definition items :: "gem_dict \<Rightarrow> (GemColor \<times> int) list" where
  "items d = List.map_filter (\<lambda>c. map_option (Pair c) (d c)) all_colors"

record Card =
  level :: int
  points :: int
  gem_color :: GemColor
  cost :: "(GemColor \<times> int) list"
  card_id :: string

record Noble =
  noble_points :: int
  requirements :: "(GemColor \<times> int) list"
  noble_id :: string

record Player =
  player_id :: string
  name :: string
  gems :: gem_dict
  cards :: "Card list"
  reserved_cards :: "Card list"
  nobles :: "Noble list"

text \<open>\<^verbatim>\<open>Player(player_id, name)\<close> with the dataclass defaults.\<close>

definition new_player :: "string \<Rightarrow> string \<Rightarrow> Player" where
  "new_player pid nm =
     \<lparr>player_id = pid, name = nm,
      gems = [WHITE \<mapsto> 0, BLUE \<mapsto> 0, GREEN \<mapsto> 0, RED \<mapsto> 0, BLACK \<mapsto> 0, GOLD \<mapsto> 0],
      cards = [], reserved_cards = [], nobles = []\<rparr>"

definition get_gem_count :: "Player \<Rightarrow> GemColor \<Rightarrow> int" where
  "get_gem_count p c = dget (gems p) c"

definition get_total_gems :: "Player \<Rightarrow> int" where
  "get_total_gems p = sum_list (map snd (items (gems p)))"

definition get_card_discount :: "Player \<Rightarrow> GemColor \<Rightarrow> int" where
  "get_card_discount p c = int (length (filter (\<lambda>k. gem_color k = c) (cards p)))"

definition get_card_discounts :: "Player \<Rightarrow> gem_dict" where
  "get_card_discounts p =
     fold (\<lambda>crd discounts. discounts(gem_color crd \<mapsto> dget discounts (gem_color crd) + 1))
       (cards p)
       [WHITE \<mapsto> 0, BLUE \<mapsto> 0, GREEN \<mapsto> 0, RED \<mapsto> 0, BLACK \<mapsto> 0]"

definition can_afford_card :: "Player \<Rightarrow> Card \<Rightarrow> bool" where
  "can_afford_card p crd =
     (let discounts = get_card_discounts p;
          gold_needed =
            fold (\<lambda>(color, cst) gold_needed.
                    let available = dget (gems p) color + dget discounts color
                    in if available < cst then gold_needed + (cst - available) else gold_needed)
              (cost crd) 0
      in gold_needed \<le> dget (gems p) GOLD)"

text \<open>One iteration of the loop of \<^verbatim>\<open>get_actual_cost\<close>, for the cost entry \<open>(color, cst)\<close>.\<close>

definition actual_cost_step :: "Player \<Rightarrow> gem_dict \<Rightarrow> GemColor \<times> int \<Rightarrow> gem_dict \<Rightarrow> gem_dict" where
  "actual_cost_step p discounts entry actual_cost =
     (let color = fst entry; cst = snd entry;
          discount = dget discounts color;
          remaining_cost = max 0 (cst - discount)
      in if remaining_cost > 0 then
           let paid = min remaining_cost (dget (gems p) color);
               actual_cost1 = actual_cost(color \<mapsto> paid);
               remaining_cost1 = remaining_cost - paid
           in if remaining_cost1 > 0 \<and> dget (gems p) GOLD > 0 then
                let gold_needed = min remaining_cost1 (dget (gems p) GOLD)
                in if gold_needed > 0
                   then actual_cost1(GOLD \<mapsto> dget actual_cost1 GOLD + gold_needed)
                   else actual_cost1
              else actual_cost1
         else actual_cost)"

definition get_actual_cost :: "Player \<Rightarrow> Card \<Rightarrow> gem_dict" where
  "get_actual_cost p crd =
     fold (actual_cost_step p (get_card_discounts p)) (cost crd) Map.empty"

definition get_score :: "Player \<Rightarrow> int" where
  "get_score p = sum_list (map points (cards p)) + sum_list (map noble_points (nobles p))"

definition can_be_visited_by_noble :: "Player \<Rightarrow> Noble \<Rightarrow> bool" where
  "can_be_visited_by_noble p noble =
     (let discounts = get_card_discounts p
      in list_all (\<lambda>(color, requirement). \<not> dget discounts color < requirement)
           (requirements noble))"

subsection \<open>The catalog\<close>

definition create_standard_cards :: "Card list" where
  "create_standard_cards =
     [\<lparr>level = 1, points = 0, gem_color = WHITE, cost = [(BLUE, 1), (GREEN, 1), (RED, 1), (BLACK, 1)], card_id = ''L1_W1''\<rparr>,
      \<lparr>level = 1, points = 0, gem_color = WHITE, cost = [(BLUE, 1), (GREEN, 2), (RED, 1), (BLACK, 1)], card_id = ''L1_W2''\<rparr>,
      \<lparr>level = 1, points = 0, gem_color = WHITE, cost = [(BLUE, 2), (GREEN, 2), (BLACK, 1)], card_id = ''L1_W3''\<rparr>,
      \<lparr>level = 1, points = 1, gem_color = WHITE, cost = [(BLUE, 4)], card_id = ''L1_W4''\<rparr>,
      \<lparr>level = 1, points = 0, gem_color = BLUE, cost = [(WHITE, 1), (GREEN, 1), (RED, 1), (BLACK, 1)], card_id = ''L1_B1''\<rparr>,
      \<lparr>level = 1, points = 0, gem_color = BLUE, cost = [(WHITE, 1), (GREEN, 1), (RED, 2), (BLACK, 1)], card_id = ''L1_B2''\<rparr>,
      \<lparr>level = 1, points = 0, gem_color = BLUE, cost = [(WHITE, 1), (RED, 2), (BLACK, 2)], card_id = ''L1_B3''\<rparr>,
      \<lparr>level = 1, points = 1, gem_color = BLUE, cost = [(RED, 4)], card_id = ''L1_B4''\<rparr>,
      \<lparr>level = 1, points = 0, gem_color = GREEN, cost = [(WHITE, 1), (BLUE, 1), (RED, 1), (BLACK, 1)], card_id = ''L1_G1''\<rparr>,
      \<lparr>level = 1, points = 0, gem_color = GREEN, cost = [(WHITE, 1), (BLUE, 1), (RED, 1), (BLACK, 2)], card_id = ''L1_G2''\<rparr>,
      \<lparr>level = 1, points = 0, gem_color = GREEN, cost = [(WHITE, 2), (BLUE, 1), (BLACK, 2)], card_id = ''L1_G3''\<rparr>,
      \<lparr>level = 1, points = 1, gem_color = GREEN, cost = [(BLACK, 4)], card_id = ''L1_G4''\<rparr>,
      \<lparr>level = 1, points = 0, gem_color = RED, cost = [(WHITE, 1), (BLUE, 1), (GREEN, 1), (BLACK, 1)], card_id = ''L1_R1''\<rparr>,
      \<lparr>level = 1, points = 0, gem_color = RED, cost = [(WHITE, 2), (BLUE, 1), (GREEN, 1), (BLACK, 1)], card_id = ''L1_R2''\<rparr>,
      \<lparr>level = 1, points = 0, gem_color = RED, cost = [(WHITE, 2), (BLUE, 2), (GREEN, 1)], card_id = ''L1_R3''\<rparr>,
      \<lparr>level = 1, points = 1, gem_color = RED, cost = [(WHITE, 4)], card_id = ''L1_R4''\<rparr>,
      \<lparr>level = 1, points = 0, gem_color = BLACK, cost = [(WHITE, 1), (BLUE, 1), (GREEN, 1), (RED, 1)], card_id = ''L1_K1''\<rparr>,
      \<lparr>level = 1, points = 0, gem_color = BLACK, cost = [(WHITE, 1), (BLUE, 2), (GREEN, 1), (RED, 1)], card_id = ''L1_K2''\<rparr>,
      \<lparr>level = 1, points = 0, gem_color = BLACK, cost = [(WHITE, 1), (BLUE, 2), (GREEN, 2)], card_id = ''L1_K3''\<rparr>,
      \<lparr>level = 1, points = 1, gem_color = BLACK, cost = [(GREEN, 4)], card_id = ''L1_K4''\<rparr>,
      \<lparr>level = 2, points = 1, gem_color = WHITE, cost = [(BLUE, 3), (GREEN, 2), (RED, 2)], card_id = ''L2_W1''\<rparr>,
      \<lparr>level = 2, points = 1, gem_color = WHITE, cost = [(BLUE, 3), (GREEN, 3), (BLACK, 2)], card_id = ''L2_W2''\<rparr>,
      \<lparr>level = 2, points = 2, gem_color = WHITE, cost = [(BLUE, 5)], card_id = ''L2_W3''\<rparr>,
      \<lparr>level = 2, points = 1, gem_color = BLUE, cost = [(WHITE, 2), (GREEN, 2), (RED, 3)], card_id = ''L2_B1''\<rparr>,
      \<lparr>level = 2, points = 1, gem_color = BLUE, cost = [(WHITE, 2), (RED, 3), (BLACK, 3)], card_id = ''L2_B2''\<rparr>,
      \<lparr>level = 2, points = 2, gem_color = BLUE, cost = [(WHITE, 5)], card_id = ''L2_B3''\<rparr>,
      \<lparr>level = 2, points = 1, gem_color = GREEN, cost = [(WHITE, 3), (BLUE, 2), (BLACK, 2)], card_id = ''L2_G1''\<rparr>,
      \<lparr>level = 2, points = 1, gem_color = GREEN, cost = [(WHITE, 3), (RED, 2), (BLACK, 3)], card_id = ''L2_G2''\<rparr>,
      \<lparr>level = 2, points = 2, gem_color = GREEN, cost = [(BLUE, 5)], card_id = ''L2_G3''\<rparr>,
      \<lparr>level = 2, points = 1, gem_color = RED, cost = [(WHITE, 2), (GREEN, 3), (BLACK, 2)], card_id = ''L2_R1''\<rparr>,
      \<lparr>level = 2, points = 1, gem_color = RED, cost = [(BLUE, 2), (GREEN, 3), (BLACK, 3)], card_id = ''L2_R2''\<rparr>,
      \<lparr>level = 2, points = 2, gem_color = RED, cost = [(BLACK, 5)], card_id = ''L2_R3''\<rparr>,
      \<lparr>level = 2, points = 1, gem_color = BLACK, cost = [(WHITE, 2), (BLUE, 2), (RED, 3)], card_id = ''L2_K1''\<rparr>,
      \<lparr>level = 2, points = 1, gem_color = BLACK, cost = [(WHITE, 3), (GREEN, 2), (RED, 3)], card_id = ''L2_K2''\<rparr>,
      \<lparr>level = 2, points = 2, gem_color = BLACK, cost = [(RED, 5)], card_id = ''L2_K3''\<rparr>,
      \<lparr>level = 3, points = 3, gem_color = WHITE, cost = [(BLUE, 3), (GREEN, 3), (RED, 3), (BLACK, 5)], card_id = ''L3_W1''\<rparr>,
      \<lparr>level = 3, points = 4, gem_color = WHITE, cost = [(RED, 7)], card_id = ''L3_W2''\<rparr>,
      \<lparr>level = 3, points = 3, gem_color = BLUE, cost = [(WHITE, 3), (GREEN, 3), (RED, 5), (BLACK, 3)], card_id = ''L3_B1''\<rparr>,
      \<lparr>level = 3, points = 4, gem_color = BLUE, cost = [(BLACK, 7)], card_id = ''L3_B2''\<rparr>,
      \<lparr>level = 3, points = 3, gem_color = GREEN, cost = [(WHITE, 5), (BLUE, 3), (RED, 3), (BLACK, 3)], card_id = ''L3_G1''\<rparr>,
      \<lparr>level = 3, points = 4, gem_color = GREEN, cost = [(WHITE, 7)], card_id = ''L3_G2''\<rparr>,
      \<lparr>level = 3, points = 3, gem_color = RED, cost = [(WHITE, 3), (BLUE, 5), (GREEN, 3), (BLACK, 3)], card_id = ''L3_R1''\<rparr>,
      \<lparr>level = 3, points = 4, gem_color = RED, cost = [(GREEN, 7)], card_id = ''L3_R2''\<rparr>,
      \<lparr>level = 3, points = 3, gem_color = BLACK, cost = [(WHITE, 3), (BLUE, 3), (GREEN, 5), (RED, 3)], card_id = ''L3_K1''\<rparr>,
      \<lparr>level = 3, points = 4, gem_color = BLACK, cost = [(BLUE, 7)], card_id = ''L3_K2''\<rparr>]"

definition create_standard_nobles :: "Noble list" where
  "create_standard_nobles =
     [\<lparr>noble_points = 3, requirements = [(WHITE, 4), (RED, 4)], noble_id = ''N1''\<rparr>,
      \<lparr>noble_points = 3, requirements = [(WHITE, 3), (BLUE, 3), (RED, 3)], noble_id = ''N2''\<rparr>,
      \<lparr>noble_points = 3, requirements = [(BLUE, 4), (GREEN, 4)], noble_id = ''N3''\<rparr>,
      \<lparr>noble_points = 3, requirements = [(BLACK, 4), (RED, 4)], noble_id = ''N4''\<rparr>,
      \<lparr>noble_points = 3, requirements = [(WHITE, 3), (BLUE, 3), (BLACK, 3)], noble_id = ''N5''\<rparr>,
      \<lparr>noble_points = 3, requirements = [(GREEN, 4), (BLACK, 4)], noble_id = ''N6''\<rparr>,
      \<lparr>noble_points = 3, requirements = [(WHITE, 3), (GREEN, 3), (BLACK, 3)], noble_id = ''N7''\<rparr>,
      \<lparr>noble_points = 3, requirements = [(BLUE, 3), (GREEN, 3), (RED, 3)], noble_id = ''N8''\<rparr>,
      \<lparr>noble_points = 3, requirements = [(WHITE, 4), (BLUE, 4)], noble_id = ''N9''\<rparr>,
      \<lparr>noble_points = 3, requirements = [(GREEN, 3), (RED, 3), (BLACK, 3)], noble_id = ''N10''\<rparr>]"

section \<open>Board (game/board.py)\<close>

text \<open>
  The two per-level dictionaries are created by \<^verbatim>\<open>Board.__init__\<close> with the
  keys 1, 2, 3 and no operation adds or deletes a key; they are partial maps
  from the level, listed in the key order 1, 2, 3.
\<close>

type_synonym level_dict = "int \<rightharpoonup> Card list"

record Board =
  board_gems :: gem_dict
  card_decks :: level_dict
  displayed_cards :: level_dict
  board_nobles :: "Noble list"

definition level_items :: "level_dict \<Rightarrow> (int \<times> Card list) list" where
  "level_items d = List.map_filter (\<lambda>l. map_option (Pair l) (d l)) [1, 2, 3]"

text \<open>\<^verbatim>\<open>d.get(level, [])\<close>, where the level parameter of an action may be absent.\<close>

definition level_get :: "level_dict \<Rightarrow> int option \<Rightarrow> Card list" where
  "level_get d lvl =
     (case lvl of None \<Rightarrow> []
      | Some l \<Rightarrow> (case d l of None \<Rightarrow> [] | Some xs \<Rightarrow> xs))"

text \<open>The index of the first element that satisfies \<open>P\<close>: the \<^verbatim>\<open>enumerate\<close> search loops.\<close>

fun find_index :: "('a \<Rightarrow> bool) \<Rightarrow> 'a list \<Rightarrow> nat option" where
  "find_index P [] = None"
| "find_index P (x # xs) =
     (if P x then Some 0 else map_option Suc (find_index P xs))"

text \<open>\<^verbatim>\<open>xs.pop(i)\<close> for an index in range: the list without position \<open>i\<close>.\<close>

definition pop_at :: "nat \<Rightarrow> 'a list \<Rightarrow> 'a list" where
  "pop_at i xs = take i xs @ drop (Suc i) xs"

definition initialize_gems :: "nat \<Rightarrow> gem_dict" where
  "initialize_gems n =
     (let base_gems = [2 \<mapsto> 4, 3 \<mapsto> 5, 4 \<mapsto> (7::int)];
          base = (case base_gems n of None \<Rightarrow> 4 | Some v \<Rightarrow> v)
      in (fold (\<lambda>color gems. gems(color \<mapsto> base)) basic_colors Map.empty)(GOLD \<mapsto> 5))"

text \<open>
  The set-up loop \<^verbatim>\<open>for _ in range(4): if deck: displayed.append(deck.pop())\<close>,
  on the pair (displayed, deck).
\<close>

fun deal :: "nat \<Rightarrow> Card list \<Rightarrow> Card list \<Rightarrow> Card list \<times> Card list" where
  "deal 0 disp deck = (disp, deck)"
| "deal (Suc n) disp deck =
     (if deck \<noteq> [] then deal n (disp @ [last deck]) (butlast deck) else deal n disp deck)"

text \<open>
  \<^verbatim>\<open>Board(num_players)\<close>.  The three decks and the noble list are passed as
  \<^verbatim>\<open>random.shuffle\<close> left them: any permutation of the catalog's cards of the
  level, and any permutation of the catalog's nobles.
\<close>

definition Board_init :: "nat \<Rightarrow> Card list \<Rightarrow> Card list \<Rightarrow> Card list \<Rightarrow> Noble list \<Rightarrow> Board" where
  "Board_init n deck1 deck2 deck3 all_nobles =
     (let (disp1, d1) = deal 4 [] deck1;
          (disp2, d2) = deal 4 [] deck2;
          (disp3, d3) = deal 4 [] deck3
      in \<lparr>board_gems = initialize_gems n,
          card_decks = [1 \<mapsto> d1, 2 \<mapsto> d2, 3 \<mapsto> d3],
          displayed_cards = [1 \<mapsto> disp1, 2 \<mapsto> disp2, 3 \<mapsto> disp3],
          board_nobles = take (n + 1) all_nobles\<rparr>)"

definition draw_card :: "Board \<Rightarrow> int \<Rightarrow> error + (Card option \<times> Board)" where
  "draw_card b lvl =
     (case card_decks b lvl of None \<Rightarrow> Inl KeyError
      | Some deck \<Rightarrow>
          if deck = [] then Inr (None, b)
          else Inr (Some (last deck), b\<lparr>card_decks := (card_decks b)(lvl \<mapsto> butlast deck)\<rparr>))"

text \<open>
  The inner \<^verbatim>\<open>while\<close> loop of \<^verbatim>\<open>replenish_displayed_cards\<close> on one level, given
  the level's displayed list and deck: each round appends the card that
  \<^verbatim>\<open>draw_card\<close> pops from the non-empty deck.
\<close>

function replenish_level :: "Card list \<Rightarrow> Card list \<Rightarrow> Card list \<times> Card list" where
  "replenish_level disp deck =
     (if length disp < 4 \<and> deck \<noteq> []
      then replenish_level (disp @ [last deck]) (butlast deck)
      else (disp, deck))"
  by pat_completeness auto
termination
  by (relation "measure (\<lambda>(disp, deck). length deck)") auto

declare replenish_level.simps [simp del]

text \<open>
  One round of the outer \<^verbatim>\<open>for level in [1, 2, 3]\<close>.  The loop condition reads
  \<^verbatim>\<open>self.displayed_cards[level]\<close> first and \<^verbatim>\<open>self.card_decks[level]\<close> only when
  fewer than four cards are displayed.
\<close>

definition replenish_one :: "int \<Rightarrow> Board \<Rightarrow> error + Board" where
  "replenish_one lvl b =
     (case displayed_cards b lvl of None \<Rightarrow> Inl KeyError
      | Some disp \<Rightarrow>
          if length disp < 4 then
            (case card_decks b lvl of None \<Rightarrow> Inl KeyError
             | Some deck \<Rightarrow>
                 let (disp', deck') = replenish_level disp deck
                 in Inr (b\<lparr>card_decks := (card_decks b)(lvl \<mapsto> deck'),
                           displayed_cards := (displayed_cards b)(lvl \<mapsto> disp')\<rparr>))
          else Inr b)"

definition replenish_displayed_cards :: "Board \<Rightarrow> error + Board" where
  "replenish_displayed_cards b =
     ebind (replenish_one 1 b) (\<lambda>b1. ebind (replenish_one 2 b1) (replenish_one 3))"

definition remove_displayed_card :: "Board \<Rightarrow> int \<Rightarrow> string \<Rightarrow> error + (Card option \<times> Board)" where
  "remove_displayed_card b lvl cid =
     (case displayed_cards b lvl of None \<Rightarrow> Inl KeyError
      | Some disp \<Rightarrow>
          (case find_index (\<lambda>c. card_id c = cid) disp of
             None \<Rightarrow> Inr (None, b)
           | Some i \<Rightarrow>
               let crd = disp ! i;
                   b1 = b\<lparr>displayed_cards := (displayed_cards b)(lvl \<mapsto> pop_at i disp)\<rparr>
               in ebind (replenish_displayed_cards b1) (\<lambda>b2. Inr (Some crd, b2))))"

text \<open>The second loop of \<^verbatim>\<open>take_gems\<close>: \<^verbatim>\<open>self.gems[color] -= count\<close> for every item.\<close>

fun subtract_gems :: "gem_dict \<Rightarrow> (GemColor \<times> int) list \<Rightarrow> error + gem_dict" where
  "subtract_gems d [] = Inr d"
| "subtract_gems d ((color, n) # kvs) =
     (case d color of None \<Rightarrow> Inl KeyError
      | Some v \<Rightarrow> subtract_gems (d(color \<mapsto> v - n)) kvs)"

definition take_gems :: "Board \<Rightarrow> gem_dict \<Rightarrow> error + (bool \<times> Board)" where
  "take_gems b gems_to_take =
     (if list_ex (\<lambda>(color, n). dget (board_gems b) color < n) (items gems_to_take)
      then Inr (False, b)
      else ebind (subtract_gems (board_gems b) (items gems_to_take))
             (\<lambda>d. Inr (True, b\<lparr>board_gems := d\<rparr>)))"

definition return_gems :: "Board \<Rightarrow> gem_dict \<Rightarrow> Board" where
  "return_gems b gems_to_return =
     b\<lparr>board_gems :=
         fold (\<lambda>(color, n) d. d(color \<mapsto> dget d color + n)) (items gems_to_return) (board_gems b)\<rparr>"

definition remove_noble :: "Board \<Rightarrow> string \<Rightarrow> Noble option \<times> Board" where
  "remove_noble b nid =
     (case find_index (\<lambda>n. noble_id n = nid) (board_nobles b) of
        None \<Rightarrow> (None, b)
      | Some i \<Rightarrow> (Some (board_nobles b ! i), b\<lparr>board_nobles := pop_at i (board_nobles b)\<rparr>))"

section \<open>Game engine (game/game.py)\<close>

text \<open>
  An action is its type tag with the parameters the engine reads from
  \<^verbatim>\<open>action.params\<close>; a parameter that \<^verbatim>\<open>params.get\<close> does not find is \<open>None\<close>
  (the empty list for \<^verbatim>\<open>colors\<close>, \<open>False\<close> for \<^verbatim>\<open>from_deck\<close>).
\<close>

datatype Action =
    TAKE_DIFFERENT_GEMS "GemColor list"  \<comment> \<open>\<^verbatim>\<open>colors\<close>\<close>
  | TAKE_SAME_GEMS "GemColor option"  \<comment> \<open>\<^verbatim>\<open>color\<close>\<close>
  | RESERVE_CARD "int option" "string option" bool  \<comment> \<open>\<^verbatim>\<open>level\<close>, \<^verbatim>\<open>card_id\<close>, \<^verbatim>\<open>from_deck\<close>\<close>
  | BUY_CARD "int option" "string option"  \<comment> \<open>\<^verbatim>\<open>level\<close>, \<^verbatim>\<open>card_id\<close>\<close>
  | BUY_RESERVED_CARD "string option"  \<comment> \<open>\<^verbatim>\<open>card_id\<close>\<close>

text \<open>
  A history record.  Its \<^verbatim>\<open>action\<close> text and its \<^verbatim>\<open>action_data\<close> dictionary are
  \<^verbatim>\<open>str(action)\<close> and \<^verbatim>\<open>action.to_dict()\<close>, both determined by the action, which
  the record keeps as it is.
\<close>

record HistoryEntry =
  h_round :: int
  h_player :: string
  h_action :: Action

text \<open>
  \<open>last_player_index\<close> is an attribute that \<^verbatim>\<open>__init__\<close> does not create: it is
  \<open>None\<close> until \<^verbatim>\<open>_check_game_end\<close> assigns it.  \<open>winner\<close> is \<open>None\<close> or the list
  of winning players.
\<close>

record Game =
  players :: "Player list"
  num_players :: nat
  board :: Board
  current_player_index :: nat
  round_number :: int
  game_over :: bool
  winner :: "Player list option"
  last_round :: bool
  last_player_index :: "nat option"
  history :: "HistoryEntry list"

definition Game_init :: "Player list \<Rightarrow> Card list \<Rightarrow> Card list \<Rightarrow> Card list \<Rightarrow> Noble list \<Rightarrow> Game" where
  "Game_init ps deck1 deck2 deck3 all_nobles =
     \<lparr>players = ps, num_players = length ps,
      board = Board_init (length ps) deck1 deck2 deck3 all_nobles,
      current_player_index = 0, round_number = 1, game_over = False, winner = None,
      last_round = False, last_player_index = None, history = []\<rparr>"

definition get_current_player :: "Game \<Rightarrow> error + Player" where
  "get_current_player g =
     (if current_player_index g < length (players g)
      then Inr (players g ! current_player_index g) else Inl IndexError)"

text \<open>
  The engine mutates the current player's object and the board in place; the
  model writes both back into the game.
\<close>

definition put_current :: "Game \<Rightarrow> Player \<Rightarrow> Board \<Rightarrow> Game" where
  "put_current g p b = g\<lparr>players := (players g)[current_player_index g := p], board := b\<rparr>"

definition next_player :: "Game \<Rightarrow> error + Game" where
  "next_player g =
     (if num_players g = 0 then Inl ZeroDivisionError
      else let i = (current_player_index g + 1) mod num_players g
           in Inr (g\<lparr>current_player_index := i,
                     round_number := (if i = 0 then round_number g + 1 else round_number g)\<rparr>))"

subsection \<open>Legal-action generation\<close>

text \<open>\<^verbatim>\<open>itertools.combinations(xs, k)\<close>, in its lexicographic order of positions.\<close>

fun combinations :: "'a list \<Rightarrow> nat \<Rightarrow> 'a list list" where
  "combinations xs 0 = [[]]"
| "combinations [] (Suc k) = []"
| "combinations (x # xs) (Suc k) =
     map ((#) x) (combinations xs k) @ combinations xs (Suc k)"

definition get_different_gems_actions :: "Game \<Rightarrow> Action list" where
  "get_different_gems_actions g =
     (let available_colors = filter (\<lambda>c. dget (board_gems (board g)) c > 0) basic_colors
      in if length available_colors \<le> 3 then [TAKE_DIFFERENT_GEMS available_colors]
         else map TAKE_DIFFERENT_GEMS (combinations available_colors 3))"

definition get_same_gems_actions :: "Game \<Rightarrow> Action list" where
  "get_same_gems_actions g =
     map (\<lambda>c. TAKE_SAME_GEMS (Some c))
       (filter (\<lambda>c. dget (board_gems (board g)) c \<ge> 4) basic_colors)"

definition get_reserve_card_actions :: "Game \<Rightarrow> Player \<Rightarrow> Action list" where
  "get_reserve_card_actions g player =
     (if length (reserved_cards player) \<ge> 3 then []
      else concat (map (\<lambda>(lvl, cs). map (\<lambda>c. RESERVE_CARD (Some lvl) (Some (card_id c)) False) cs)
                     (level_items (displayed_cards (board g))))
           @ concat (map (\<lambda>(lvl, deck). if deck \<noteq> [] then [RESERVE_CARD (Some lvl) None True] else [])
                     (level_items (card_decks (board g)))))"

definition get_buy_card_actions :: "Game \<Rightarrow> Player \<Rightarrow> Action list" where
  "get_buy_card_actions g player =
     concat (map (\<lambda>(lvl, cs). map (\<lambda>c. BUY_CARD (Some lvl) (Some (card_id c)))
                                 (filter (can_afford_card player) cs))
               (level_items (displayed_cards (board g))))"

definition get_buy_reserved_card_actions :: "Game \<Rightarrow> Player \<Rightarrow> Action list" where
  "get_buy_reserved_card_actions g player =
     map (\<lambda>c. BUY_RESERVED_CARD (Some (card_id c)))
       (filter (can_afford_card player) (reserved_cards player))"

definition get_valid_actions :: "Game \<Rightarrow> error + Action list" where
  "get_valid_actions g =
     ebind (get_current_player g) (\<lambda>player.
       Inr (get_different_gems_actions g @ get_same_gems_actions g
            @ get_reserve_card_actions g player @ get_buy_card_actions g player
            @ get_buy_reserved_card_actions g player))"

subsection \<open>Discard, nobles, end of game\<close>

text \<open>
  The loop of \<^verbatim>\<open>_check_and_discard_gems\<close> on the local counter \<open>total_gems\<close>,
  the player's tokens and the pool.  \<^verbatim>\<open>random.choice\<close> is resolved by the list
  \<open>rs\<close>: its head, reduced modulo the number of candidates, is the position
  chosen (position 0 when the list has run out), so every choice the
  generator can make is the behaviour under some \<open>rs\<close>.
\<close>

function discard_loop :: "nat list \<Rightarrow> int \<Rightarrow> gem_dict \<Rightarrow> gem_dict \<Rightarrow> error + (gem_dict \<times> gem_dict)" where
  "discard_loop rs total_gems pg bg =
     (if total_gems > 10 then
        (let available_colors = map fst (filter (\<lambda>(c, n). n > 0) (items pg))
         in if available_colors = [] then Inr (pg, bg)
            else let color_to_discard =
                       available_colors ! ((case rs of [] \<Rightarrow> 0 | r # _ \<Rightarrow> r) mod length available_colors)
                 in (case bg color_to_discard of None \<Rightarrow> Inl KeyError
                     | Some v \<Rightarrow>
                         discard_loop (tl rs) (total_gems - 1)
                           (pg(color_to_discard \<mapsto> dget pg color_to_discard - 1))
                           (bg(color_to_discard \<mapsto> v + 1))))
      else Inr (pg, bg))"
  by pat_completeness auto
termination
  by (relation "measure (\<lambda>(rs, total_gems, pg, bg). nat (total_gems - 10))") auto

declare discard_loop.simps [simp del]

definition check_and_discard_gems :: "nat list \<Rightarrow> Player \<Rightarrow> Board \<Rightarrow> error + (Player \<times> Board)" where
  "check_and_discard_gems rs player b =
     ebind (discard_loop rs (get_total_gems player) (gems player) (board_gems b))
       (\<lambda>(pg, bg). Inr (player\<lparr>gems := pg\<rparr>, b\<lparr>board_gems := bg\<rparr>))"

definition check_nobles_visit :: "Player \<Rightarrow> Board \<Rightarrow> Player \<times> Board" where
  "check_nobles_visit player b =
     (case filter (can_be_visited_by_noble player) (board_nobles b) of
        [] \<Rightarrow> (player, b)
      | noble # _ \<Rightarrow>
          (player\<lparr>nobles := nobles player @ [noble]\<rparr>, snd (remove_noble b (noble_id noble))))"

text \<open>
  The first loop of \<^verbatim>\<open>_determine_winner\<close>, on the triple
  (\<open>max_score\<close>, \<open>min_cards\<close>, \<open>potential_winners\<close>); \<^verbatim>\<open>float('inf')\<close> is \<open>\<infinity>\<close>.
\<close>

fun potential_winners :: "Player list \<Rightarrow> int \<Rightarrow> enat \<Rightarrow> Player list \<Rightarrow> int \<times> enat \<times> Player list" where
  "potential_winners [] max_score min_cards pw = (max_score, min_cards, pw)"
| "potential_winners (p # ps) max_score min_cards pw =
     (let score = get_score p
      in if score > max_score
         then potential_winners ps score (enat (length (cards p))) [p]
         else if score = max_score
         then potential_winners ps max_score (min min_cards (enat (length (cards p)))) (pw @ [p])
         else potential_winners ps max_score min_cards pw)"

definition determine_winner :: "Game \<Rightarrow> Game" where
  "determine_winner g =
     (case potential_winners (players g) (- 1) \<infinity> [] of
        (max_score, min_cards, pw) \<Rightarrow>
          g\<lparr>winner := Some (filter (\<lambda>p. get_score p = max_score
                                        \<and> enat (length (cards p)) = min_cards) pw)\<rparr>)"

definition check_game_end :: "Game \<Rightarrow> error + Game" where
  "check_game_end g =
     (let g1 = (if list_ex (\<lambda>p. get_score p \<ge> 15) (players g) \<and> \<not> last_round g
                then g\<lparr>last_round := True, last_player_index := Some (current_player_index g)\<rparr>
                else g)
      in if last_round g1 then
           (if num_players g1 = 0 then Inl ZeroDivisionError
            else case last_player_index g1 of
                   None \<Rightarrow> Inl AttributeError
                 | Some lp \<Rightarrow>
                     if (current_player_index g1 + 1) mod num_players g1 = lp
                     then Inr (determine_winner (g1\<lparr>game_over := True\<rparr>))
                     else Inr g1)
         else Inr g1)"

subsection \<open>Executing an action\<close>

text \<open>
  The executors work on the current player's object and the board and return
  the success flag with both.  The validation loop of
  \<^verbatim>\<open>_execute_take_different_gems\<close> returns \<open>False\<close> at the first colour whose pool
  count is not positive, before anything is changed, and otherwise builds the
  local dictionary \<open>gems_to_take\<close>, in which a repeated colour is one key.
\<close>

definition execute_take_different_gems ::
    "nat list \<Rightarrow> Player \<Rightarrow> Board \<Rightarrow> GemColor list \<Rightarrow> error + (bool \<times> Player \<times> Board)" where
  "execute_take_different_gems rs player b cs =
     (if cs = [] \<or> length cs > 3 then Inr (False, player, b)
      else if list_ex (\<lambda>c. dget (board_gems b) c \<le> 0) cs then Inr (False, player, b)
      else
        let gems_to_take = fold (\<lambda>c m. m(c \<mapsto> 1)) cs Map.empty
        in ebind (take_gems b gems_to_take) (\<lambda>(ok, b1).
             if \<not> ok then Inr (False, player, b)
             else
               let player1 = player\<lparr>gems :=
                     fold (\<lambda>(c, n) d. d(c \<mapsto> dget d c + n)) (items gems_to_take) (gems player)\<rparr>
               in ebind (check_and_discard_gems rs player1 b1) (\<lambda>(p2, b2). Inr (True, p2, b2))))"

definition execute_take_same_gems ::
    "nat list \<Rightarrow> Player \<Rightarrow> Board \<Rightarrow> GemColor option \<Rightarrow> error + (bool \<times> Player \<times> Board)" where
  "execute_take_same_gems rs player b col =
     (case col of None \<Rightarrow> Inr (False, player, b)
      | Some c \<Rightarrow>
          if dget (board_gems b) c < 4 then Inr (False, player, b)
          else
            ebind (take_gems b [c \<mapsto> 2]) (\<lambda>(ok, b1).
              if \<not> ok then Inr (False, player, b)
              else
                let player1 = player\<lparr>gems := (gems player)(c \<mapsto> dget (gems player) c + 2)\<rparr>
                in ebind (check_and_discard_gems rs player1 b1) (\<lambda>(p2, b2). Inr (True, p2, b2))))"

text \<open>
  The card that \<^verbatim>\<open>_execute_reserve_card\<close> takes from its source, with the
  board after the \<^verbatim>\<open>pop\<close>; \<open>None\<close> when the deck is empty or no displayed card
  of the level has the id.
\<close>

definition take_reserved_source :: "Board \<Rightarrow> int option \<Rightarrow> string option \<Rightarrow> bool \<Rightarrow> Card option \<times> Board" where
  "take_reserved_source b lvl cid fd =
     (case lvl of None \<Rightarrow> (None, b)
      | Some l \<Rightarrow>
          if fd then
            (let deck = level_get (card_decks b) lvl
             in if deck \<noteq> []
                then (Some (last deck), b\<lparr>card_decks := (card_decks b)(l \<mapsto> butlast deck)\<rparr>)
                else (None, b))
          else
            (let disp = level_get (displayed_cards b) lvl
             in case find_index (\<lambda>c. Some (card_id c) = cid) disp of
                  None \<Rightarrow> (None, b)
                | Some i \<Rightarrow>
                    (Some (disp ! i), b\<lparr>displayed_cards := (displayed_cards b)(l \<mapsto> pop_at i disp)\<rparr>)))"

definition execute_reserve_card ::
    "nat list \<Rightarrow> Player \<Rightarrow> Board \<Rightarrow> int option \<Rightarrow> string option \<Rightarrow> bool
      \<Rightarrow> error + (bool \<times> Player \<times> Board)" where
  "execute_reserve_card rs player b lvl cid fd =
     (if length (reserved_cards player) \<ge> 3 then Inr (False, player, b)
      else
        case take_reserved_source b lvl cid fd of
          (None, _) \<Rightarrow> Inr (False, player, b)
        | (Some crd, b1) \<Rightarrow>
            let player1 = player\<lparr>reserved_cards := reserved_cards player @ [crd]\<rparr>
            in ebind (replenish_displayed_cards b1) (\<lambda>b2.
                 if dget (board_gems b2) GOLD > 0 then
                   let b3 = b2\<lparr>board_gems := (board_gems b2)(GOLD \<mapsto> dget (board_gems b2) GOLD - 1)\<rparr>;
                       player2 = player1\<lparr>gems := (gems player1)(GOLD \<mapsto> dget (gems player1) GOLD + 1)\<rparr>
                   in ebind (check_and_discard_gems rs player2 b3) (\<lambda>(p3, b4). Inr (True, p3, b4))
                 else Inr (True, player1, b2)))"

text \<open>
  The payment loop of both purchases, over the items of \<open>actual_cost\<close>:
  \<^verbatim>\<open>player.gems[color] -= count\<close>, then
  \<^verbatim>\<open>self.board.gems[color] = self.board.gems.get(color, 0) + count\<close>.
\<close>

fun pay_gems :: "(GemColor \<times> int) list \<Rightarrow> gem_dict \<Rightarrow> gem_dict \<Rightarrow> error + (gem_dict \<times> gem_dict)" where
  "pay_gems [] pg bg = Inr (pg, bg)"
| "pay_gems ((color, n) # kvs) pg bg =
     (case pg color of None \<Rightarrow> Inl KeyError
      | Some v \<Rightarrow> pay_gems kvs (pg(color \<mapsto> v - n)) (bg(color \<mapsto> dget bg color + n)))"

text \<open>
  What follows the payment in both purchases: the card joins the player's
  cards, a noble may visit, and the end of the game is checked on the game
  that holds the updated player and board.
\<close>

definition finish_purchase :: "Game \<Rightarrow> Player \<Rightarrow> Board \<Rightarrow> Card \<Rightarrow> error + (bool \<times> Game)" where
  "finish_purchase g player b crd =
     (let player1 = player\<lparr>cards := cards player @ [crd]\<rparr>;
          (player2, b2) = check_nobles_visit player1 b
      in ebind (check_game_end (put_current g player2 b2)) (\<lambda>g'. Inr (True, g')))"

definition execute_buy_card :: "Game \<Rightarrow> Player \<Rightarrow> int option \<Rightarrow> string option \<Rightarrow> error + (bool \<times> Game)" where
  "execute_buy_card g player lvl cid =
     (case (lvl, cid) of
        (Some l, Some i) \<Rightarrow>
          (case find (\<lambda>c. card_id c = i) (level_get (displayed_cards (board g)) lvl) of
             None \<Rightarrow> Inr (False, g)
           | Some crd \<Rightarrow>
               if \<not> can_afford_card player crd then Inr (False, g)
               else
                 ebind (pay_gems (items (get_actual_cost player crd)) (gems player)
                          (board_gems (board g))) (\<lambda>(pg, bg).
                 ebind (remove_displayed_card ((board g)\<lparr>board_gems := bg\<rparr>) l i) (\<lambda>(_, b1).
                   finish_purchase g (player\<lparr>gems := pg\<rparr>) b1 crd)))
      | _ \<Rightarrow> Inr (False, g))"

definition execute_buy_reserved_card :: "Game \<Rightarrow> Player \<Rightarrow> string option \<Rightarrow> error + (bool \<times> Game)" where
  "execute_buy_reserved_card g player cid =
     (case find_index (\<lambda>c. Some (card_id c) = cid) (reserved_cards player) of
        None \<Rightarrow> Inr (False, g)
      | Some card_index \<Rightarrow>
          let crd = reserved_cards player ! card_index
          in if \<not> can_afford_card player crd then Inr (False, g)
             else
               ebind (pay_gems (items (get_actual_cost player crd)) (gems player)
                        (board_gems (board g))) (\<lambda>(pg, bg).
                 finish_purchase g
                   (player\<lparr>gems := pg, reserved_cards := pop_at card_index (reserved_cards player)\<rparr>)
                   ((board g)\<lparr>board_gems := bg\<rparr>) crd))"

definition execute_action :: "nat list \<Rightarrow> Game \<Rightarrow> Action \<Rightarrow> error + (bool \<times> Game)" where
  "execute_action rs g action =
     ebind (get_current_player g) (\<lambda>player.
       let g1 = g\<lparr>history := history g @
                  [\<lparr>h_round = round_number g, h_player = player_id player, h_action = action\<rparr>]\<rparr>
       in case action of
            TAKE_DIFFERENT_GEMS cs \<Rightarrow>
              ebind (execute_take_different_gems rs player (board g1) cs)
                (\<lambda>(ok, p, b). Inr (ok, put_current g1 p b))
          | TAKE_SAME_GEMS col \<Rightarrow>
              ebind (execute_take_same_gems rs player (board g1) col)
                (\<lambda>(ok, p, b). Inr (ok, put_current g1 p b))
          | RESERVE_CARD lvl cid fd \<Rightarrow>
              ebind (execute_reserve_card rs player (board g1) lvl cid fd)
                (\<lambda>(ok, p, b). Inr (ok, put_current g1 p b))
          | BUY_CARD lvl cid \<Rightarrow> execute_buy_card g1 player lvl cid
          | BUY_RESERVED_CARD cid \<Rightarrow> execute_buy_reserved_card g1 player cid)"

text \<open>
  \<^verbatim>\<open>play_round\<close>, the number \<open>k\<close> resolving \<^verbatim>\<open>random.choice(valid_actions)\<close>.
\<close>

definition play_round :: "nat \<Rightarrow> nat list \<Rightarrow> Game \<Rightarrow> error + (bool \<times> Game)" where
  "play_round k rs g =
     (if game_over g then Inr (False, g)
      else
        ebind (get_current_player g) (\<lambda>player.
        ebind (get_valid_actions g) (\<lambda>valid_actions.
          if valid_actions = [] then ebind (next_player g) (\<lambda>g'. Inr (True, g'))
          else
            let action = valid_actions ! (k mod length valid_actions)
            in ebind (execute_action rs g action) (\<lambda>(success, g1).
                 if success then ebind (next_player g1) (\<lambda>g2. Inr (True, g2))
                 else Inr (False, g1)))))"

section \<open>Reachable games\<close>

text \<open>
  A game is reachable when it is a new game of one or more new players, or
  comes from a reachable game by one call of \<^verbatim>\<open>execute_action\<close> that returns
  (with either result, any action and any random choices) or by one call of
  \<^verbatim>\<open>next_player\<close>, the two ways in which the drivers advance a game.
\<close>

inductive reachable :: "Game \<Rightarrow> bool" where
  reachable_init:
    "ids \<noteq> [] \<Longrightarrow>
     mset deck1 = mset (filter (\<lambda>c. level c = 1) create_standard_cards) \<Longrightarrow>
     mset deck2 = mset (filter (\<lambda>c. level c = 2) create_standard_cards) \<Longrightarrow>
     mset deck3 = mset (filter (\<lambda>c. level c = 3) create_standard_cards) \<Longrightarrow>
     mset all_nobles = mset create_standard_nobles \<Longrightarrow>
     reachable (Game_init (map (\<lambda>(pid, nm). new_player pid nm) ids) deck1 deck2 deck3 all_nobles)"
| reachable_execute:
    "reachable g \<Longrightarrow> execute_action rs g action = Inr (ok, g') \<Longrightarrow> reachable g'"
| reachable_next:
    "reachable g \<Longrightarrow> next_player g = Inr g' \<Longrightarrow> reachable g'"

section \<open>Quantities the properties are stated in\<close>

text \<open>The sum of a token dictionary over the six colours.\<close>

definition total :: "gem_dict \<Rightarrow> int" where
  "total d = dget d WHITE + dget d BLUE + dget d GREEN + dget d RED + dget d BLACK + dget d GOLD"

text \<open>
  The value of the local variable \<open>gold_needed\<close> in the iteration of
  \<^verbatim>\<open>get_actual_cost\<close> for one cost entry: the Gold payment applied to that
  colour, 0 when the assignment is not reached.
\<close>

definition gold_needed_for :: "Player \<Rightarrow> gem_dict \<Rightarrow> GemColor \<times> int \<Rightarrow> int" where
  "gold_needed_for p discounts entry =
     (let color = fst entry; cst = snd entry;
          remaining_cost = max 0 (cst - dget discounts color)
      in if remaining_cost > 0 then
           let remaining_cost1 = remaining_cost - min remaining_cost (dget (gems p) color)
           in if remaining_cost1 > 0 \<and> dget (gems p) GOLD > 0
              then min remaining_cost1 (dget (gems p) GOLD) else 0
         else 0)"

text \<open>
  What \<^verbatim>\<open>can_afford_card\<close> adds to its \<open>gold_needed\<close> for one cost entry: the
  part of the cost that neither the tokens of the colour nor the discount cover.
\<close>

definition shortfall :: "Player \<Rightarrow> gem_dict \<Rightarrow> GemColor \<times> int \<Rightarrow> int" where
  "shortfall p d e = max 0 (snd e - (dget (gems p) (fst e) + dget d (fst e)))"

text \<open>
  A display topped up from its deck: the \<open>n\<close> cards at the top (the end) of the
  deck follow the displayed ones, topmost first, where \<open>n\<close> is what is missing
  to four cards or the whole deck if that is less.
\<close>

definition topped_up :: "Card list \<Rightarrow> Card list \<Rightarrow> Card list \<times> Card list" where
  "topped_up disp deck =
     (let n = min (4 - length disp) (length deck)
      in (disp @ rev (drop (length deck - n) deck), take (length deck - n) deck))"

text \<open>The board has the two per-level dictionaries with the keys 1, 2, 3, as \<^verbatim>\<open>Board.__init__\<close> builds them.\<close>

definition board_levels :: "Board \<Rightarrow> bool" where
  "board_levels b \<longleftrightarrow> dom (displayed_cards b) = {1, 2, 3} \<and> dom (card_decks b) = {1, 2, 3}"

text \<open>The displayed cards and the deck of a level.\<close>

definition disp_of :: "Board \<Rightarrow> int \<Rightarrow> Card list" where
  "disp_of b l = level_get (displayed_cards b) (Some l)"

definition deck_of :: "Board \<Rightarrow> int \<Rightarrow> Card list" where
  "deck_of b l = level_get (card_decks b) (Some l)"

text \<open>All cards on the board, and all cards of a game: those and the players' reserved and owned ones.\<close>

definition board_cards :: "Board \<Rightarrow> Card list" where
  "board_cards b = concat (map (\<lambda>l. deck_of b l @ disp_of b l) [1, 2, 3])"

definition all_cards :: "Game \<Rightarrow> Card list" where
  "all_cards g = board_cards (board g) @ concat (map (\<lambda>p. reserved_cards p @ cards p) (players g))"

text \<open>Every card in a level's deck or display is of that level.\<close>

definition levels_sorted :: "Board \<Rightarrow> bool" where
  "levels_sorted b \<longleftrightarrow> (\<forall>l\<in>{1, 2, 3}. \<forall>c\<in>set (deck_of b l @ disp_of b l). level c = l)"

text \<open>
  In how many places a card lies: its level's deck, its level's displayed
  slots, the players' reserved lists and the players' owned lists, counted
  with multiplicity.
\<close>

definition card_locations :: "Game \<Rightarrow> Card \<Rightarrow> nat" where
  "card_locations g c =
     count_list (deck_of (board g) (level c)) c + count_list (disp_of (board g) (level c)) c
     + sum_list (map (\<lambda>p. count_list (reserved_cards p) c) (players g))
     + sum_list (map (\<lambda>p. count_list (cards p) c) (players g))"

text \<open>The tokens of a colour in the pool and in all players' hands.\<close>

definition token_supply :: "Game \<Rightarrow> GemColor \<Rightarrow> int" where
  "token_supply g c = dget (board_gems (board g)) c + sum_list (map (\<lambda>p. dget (gems p) c) (players g))"

text \<open>A token dictionary with all six keys.\<close>

definition full_dict :: "gem_dict \<Rightarrow> bool" where
  "full_dict d \<longleftrightarrow> (\<forall>c. d c \<noteq> None)"

definition player_ok :: "Player \<Rightarrow> bool" where
  "player_ok p \<longleftrightarrow> full_dict (gems p) \<and> (\<forall>c. 0 \<le> dget (gems p) c) \<and> total (gems p) \<le> 10"

text \<open>
  What a turn may do to the current player and the board: both stay well
  formed, tokens only move between the player and the pool, and cards only
  move between the board and the player.
\<close>

definition turn_effect :: "Player \<Rightarrow> Board \<Rightarrow> Player \<Rightarrow> Board \<Rightarrow> bool" where
  "turn_effect p b p' b' \<longleftrightarrow>
     player_ok p' \<and> full_dict (board_gems b') \<and> board_levels b' \<and> levels_sorted b'
     \<and> (\<forall>c. dget (gems p') c + dget (board_gems b') c = dget (gems p) c + dget (board_gems b) c)
     \<and> mset (board_cards b') + mset (reserved_cards p') + mset (cards p')
         = mset (board_cards b) + mset (reserved_cards p) + mset (cards p)"

text \<open>The invariant of the engine that the reachable games are shown to satisfy.\<close>

definition game_inv :: "Game \<Rightarrow> bool" where
  "game_inv g \<longleftrightarrow>
     num_players g = length (players g)
     \<and> current_player_index g < length (players g)
     \<and> (last_round g \<longrightarrow> last_player_index g \<noteq> None)
     \<and> full_dict (board_gems (board g)) \<and> board_levels (board g) \<and> levels_sorted (board g)
     \<and> (\<forall>p\<in>set (players g). player_ok p)
     \<and> (\<forall>c. token_supply g c = dget (initialize_gems (length (players g))) c)
     \<and> mset (all_cards g) = mset create_standard_cards"

section \<open>Example games\<close>

text \<open>The catalog cards with the given ids, in the order of the ids.\<close>

definition pick :: "string list \<Rightarrow> Card list" where
  "pick ids = concat (map (\<lambda>i. filter (\<lambda>c. card_id c = i) create_standard_cards) ids)"

text \<open>
  A two-player game in its late phase.  Alice, whose turn it is, owns four
  cards worth 14 points and holds three blue tokens; Bob owns five cards, also
  worth 14 points, and holds three green tokens.  The cards \<open>L1_W4\<close> (one
  point, cost four blue) and \<open>L1_K4\<close> (one point, cost four green) are
  displayed.  Every catalog card is in one place and the tokens add up to the
  two-player supply.
\<close>

definition late_alice :: Player where
  "late_alice = (new_player ''p1'' ''Alice'')
     \<lparr>gems := [WHITE \<mapsto> 0, BLUE \<mapsto> 3, GREEN \<mapsto> 0, RED \<mapsto> 0, BLACK \<mapsto> 0, GOLD \<mapsto> 0],
      cards := pick [''L3_W2'', ''L3_B2'', ''L3_G2'', ''L2_W3'']\<rparr>"

definition late_bob :: Player where
  "late_bob = (new_player ''p2'' ''Bob'')
     \<lparr>gems := [WHITE \<mapsto> 0, BLUE \<mapsto> 0, GREEN \<mapsto> 3, RED \<mapsto> 0, BLACK \<mapsto> 0, GOLD \<mapsto> 0],
      cards := pick [''L3_R2'', ''L3_K2'', ''L2_B3'', ''L2_G3'', ''L2_R3'']\<rparr>"

definition late_board :: Board where
  "late_board =
     \<lparr>board_gems = [WHITE \<mapsto> 4, BLUE \<mapsto> 1, GREEN \<mapsto> 1, RED \<mapsto> 4, BLACK \<mapsto> 4, GOLD \<mapsto> 5],
      card_decks =
        [1 \<mapsto> pick [''L1_W1'', ''L1_W2'', ''L1_W3'', ''L1_B1'', ''L1_B2'', ''L1_B3'', ''L1_B4'',
                    ''L1_G1'', ''L1_G2'', ''L1_G3'', ''L1_G4'', ''L1_R1'', ''L1_R2'', ''L1_R3'',
                    ''L1_R4'', ''L1_K1''],
         2 \<mapsto> pick [''L2_W1'', ''L2_W2'', ''L2_B1'', ''L2_B2'', ''L2_G1'', ''L2_G2'', ''L2_R1''],
         3 \<mapsto> pick [''L3_W1'']],
      displayed_cards =
        [1 \<mapsto> pick [''L1_K4'', ''L1_K3'', ''L1_K2'', ''L1_W4''],
         2 \<mapsto> pick [''L2_K3'', ''L2_K2'', ''L2_K1'', ''L2_R2''],
         3 \<mapsto> pick [''L3_K1'', ''L3_R1'', ''L3_G1'', ''L3_B1'']],
      board_nobles = take 3 create_standard_nobles\<rparr>"

definition late_game :: Game where
  "late_game =
     \<lparr>players = [late_alice, late_bob], num_players = 2, board = late_board,
      current_player_index = 0, round_number = 12, game_over = False, winner = None,
      last_round = False, last_player_index = None, history = []\<rparr>"

text \<open>
  A player without cards who holds two blue and two gold tokens, and one who
  holds a single gold token.
\<close>

definition gold_payer :: Player where
  "gold_payer = (new_player ''p1'' ''Alice'')
     \<lparr>gems := [WHITE \<mapsto> 0, BLUE \<mapsto> 2, GREEN \<mapsto> 0, RED \<mapsto> 0, BLACK \<mapsto> 0, GOLD \<mapsto> 2]\<rparr>"

definition one_gold :: Player where
  "one_gold = (new_player ''p1'' ''Alice'')
     \<lparr>gems := [WHITE \<mapsto> 0, BLUE \<mapsto> 0, GREEN \<mapsto> 0, RED \<mapsto> 0, BLACK \<mapsto> 0, GOLD \<mapsto> 1]\<rparr>"

text \<open>The catalog cards \<open>L1_W1\<close> (cost one blue, green, red, black) and \<open>L1_W4\<close> (cost four blue).\<close>

definition card_L1_W1 :: Card where
  "card_L1_W1 = create_standard_cards ! 0"

definition card_L1_W4 :: Card where
  "card_L1_W4 = create_standard_cards ! 3"


text \<open>
  A new game of two players in which the shuffles left the decks and the
  nobles in catalog order.
\<close>

definition new_game :: Game where
  "new_game =
     Game_init (map (\<lambda>(pid, nm). new_player pid nm) [(''p1'', ''Alice''), (''p2'', ''Bob'')])
       (filter (\<lambda>c. level c = 1) create_standard_cards)
       (filter (\<lambda>c. level c = 2) create_standard_cards)
       (filter (\<lambda>c. level c = 3) create_standard_cards)
       create_standard_nobles"

text \<open>
  The game after the calls \<^verbatim>\<open>execute_action\<close> for the given actions in turn (the
  discard choosing the first candidate); a call that raises would leave the
  game as it was.
\<close>

fun after_actions :: "Game \<Rightarrow> Action list \<Rightarrow> Game" where
  "after_actions g [] = g"
| "after_actions g (a # as) =
     (case execute_action [] g a of Inr (ok, g') \<Rightarrow> after_actions g' as | Inl e \<Rightarrow> after_actions g as)"

text \<open>Alice has taken white, blue and green three times in a row and holds nine tokens.\<close>

definition nine_tokens_game :: Game where
  "nine_tokens_game =
     after_actions new_game
       [TAKE_DIFFERENT_GEMS [WHITE, BLUE, GREEN], TAKE_DIFFERENT_GEMS [WHITE, BLUE, GREEN],
        TAKE_DIFFERENT_GEMS [WHITE, BLUE, GREEN]]"

text \<open>
  A two-player game in which the pool has no token of the five colours left.
  Alice, whose turn it is, holds ten tokens and three reserved cards, Bob
  holds the other ten tokens; every displayed card and every card Alice has
  reserved costs red or black tokens, of which she has none, and she has no
  Gold.
\<close>

definition stuck_alice :: Player where
  "stuck_alice = (new_player ''p1'' ''Alice'')
     \<lparr>gems := [WHITE \<mapsto> 4, BLUE \<mapsto> 4, GREEN \<mapsto> 2, RED \<mapsto> 0, BLACK \<mapsto> 0, GOLD \<mapsto> 0],
      reserved_cards := pick [''L1_W1'', ''L1_B1'', ''L1_G1'']\<rparr>"

definition stuck_bob :: Player where
  "stuck_bob = (new_player ''p2'' ''Bob'')
     \<lparr>gems := [WHITE \<mapsto> 0, BLUE \<mapsto> 0, GREEN \<mapsto> 2, RED \<mapsto> 4, BLACK \<mapsto> 4, GOLD \<mapsto> 0]\<rparr>"

definition stuck_board :: Board where
  "stuck_board =
     \<lparr>board_gems = [WHITE \<mapsto> 0, BLUE \<mapsto> 0, GREEN \<mapsto> 0, RED \<mapsto> 0, BLACK \<mapsto> 0, GOLD \<mapsto> 5],
      card_decks =
        [1 \<mapsto> pick [''L1_W4'', ''L1_B4'', ''L1_G2'', ''L1_G3'', ''L1_G4'', ''L1_R1'', ''L1_R2'',
                    ''L1_R3'', ''L1_R4'', ''L1_K1'', ''L1_K2'', ''L1_K3'', ''L1_K4''],
         2 \<mapsto> pick [''L2_W3'', ''L2_B3'', ''L2_G1'', ''L2_G2'', ''L2_G3'', ''L2_R1'', ''L2_R2'',
                    ''L2_R3'', ''L2_K1'', ''L2_K2'', ''L2_K3''],
         3 \<mapsto> pick [''L3_G1'', ''L3_G2'', ''L3_R1'', ''L3_R2'', ''L3_K1'', ''L3_K2'']],
      displayed_cards =
        [1 \<mapsto> pick [''L1_W2'', ''L1_W3'', ''L1_B2'', ''L1_B3''],
         2 \<mapsto> pick [''L2_W1'', ''L2_W2'', ''L2_B1'', ''L2_B2''],
         3 \<mapsto> pick [''L3_W1'', ''L3_W2'', ''L3_B1'', ''L3_B2'']],
      board_nobles = take 3 create_standard_nobles\<rparr>"

definition stuck_game :: Game where
  "stuck_game =
     \<lparr>players = [stuck_alice, stuck_bob], num_players = 2, board = stuck_board,
      current_player_index = 0, round_number = 9, game_over = False, winner = None,
      last_round = False, last_player_index = None, history = []\<rparr>"

section \<open>Token dictionaries and the discard loop\<close>

lemma dget_upd [simp]: "dget (d(c \<mapsto> v)) c' = (if c' = c then v else dget d c')"
  by (simp add: dget_def)

lemma dget_empty [simp]: "dget Map.empty c = 0"
  by (simp add: dget_def)

lemma dget_Some: "d c = Some v \<Longrightarrow> dget d c = v"
  by (simp add: dget_def)

lemma dget_pos_key: "0 < dget d c \<Longrightarrow> d c \<noteq> None"
  by (auto simp: dget_def split: option.splits)

lemma all_colors_set: "set all_colors = UNIV"
proof -
  have "c \<in> set all_colors" for c by (cases c) (simp_all add: all_colors_def)
  then show ?thesis by auto
qed

lemma distinct_all_colors: "distinct all_colors"
  by (simp add: all_colors_def)

lemma map_filter_items: "List.map_filter (\<lambda>c. map_option (Pair c) (d c)) cs
    = map (\<lambda>c. (c, the (d c))) (filter (\<lambda>c. d c \<noteq> None) cs)"
  by (induction cs) (auto simp: List.map_filter_simps split: option.splits)

lemma items_eq: "items d = map (\<lambda>c. (c, the (d c))) (filter (\<lambda>c. d c \<noteq> None) all_colors)"
  by (simp add: items_def map_filter_items)

lemma set_items: "set (items d) = {(c, v). d c = Some v}"
  by (auto simp: items_eq all_colors_set)

lemma distinct_items: "distinct (map fst (items d))"
  by (simp add: items_eq comp_def distinct_all_colors)

lemma map_of_items: "map_of (items d) = d"
proof
  fix c
  show "map_of (items d) c = d c"
  proof (cases "d c")
    case None
    then have "c \<notin> fst ` set (items d)" by (auto simp: set_items)
    then show ?thesis using None by (simp add: map_of_eq_None_iff)
  next
    case (Some v)
    then have "(c, v) \<in> set (items d)" by (simp add: set_items)
    then show ?thesis using Some distinct_items by simp
  qed
qed

lemma sum_snd_items: "sum_list (map snd (items d)) = sum_list (map (dget d) cs')" if "cs' = all_colors"
proof -
  have "sum_list (map snd (map (\<lambda>c. (c, the (d c))) (filter (\<lambda>c. d c \<noteq> None) cs)))
      = sum_list (map (dget d) cs)" for cs
    by (induction cs) (auto simp: dget_def)
  then show ?thesis using that by (simp add: items_eq)
qed

lemma get_total_gems_colors:
  "get_total_gems p = dget (gems p) WHITE + dget (gems p) BLUE + dget (gems p) GREEN
      + dget (gems p) RED + dget (gems p) BLACK + dget (gems p) GOLD"
  by (simp add: get_total_gems_def sum_snd_items[OF refl] all_colors_def)

lemma total_upd: "total (d(c \<mapsto> v)) = total d - dget d c + v"
  by (cases c) (simp_all add: total_def)

lemma available_colors_set:
  "set (map fst (filter (\<lambda>(c, n). n > 0) (items d))) = {c. 0 < dget d c}"
  by (auto simp: set_items dget_def image_iff split: option.splits)

lemma total_pos_available:
  assumes "\<forall>c. 0 \<le> dget d c" "0 < total d"
  shows "map fst (filter (\<lambda>(c, n). n > 0) (items d)) \<noteq> []"
proof -
  have "\<exists>c. 0 < dget d c"
  proof (rule ccontr)
    assume "\<not> (\<exists>c. 0 < dget d c)"
    then have "dget d c = 0" for c using assms(1) by (metis order_le_less)
    then show False using assms(2) by (simp add: total_def)
  qed
  then have "{c. 0 < dget d c} \<noteq> {}" by auto
  then show ?thesis using available_colors_set[of d] by (metis set_empty)
qed

lemma discard_loop_stop:
  "t \<le> 10 \<Longrightarrow> discard_loop rs t pg bg = Inr (pg, bg)"
  by (simp add: discard_loop.simps)

lemma discard_loop_unfold:
  assumes "t > 10" "\<exists>c. 0 < dget pg c"
  obtains k where "0 < dget pg k"
    "discard_loop rs t pg bg =
       (case bg k of None \<Rightarrow> Inl KeyError
        | Some v \<Rightarrow> discard_loop (tl rs) (t - 1) (pg(k \<mapsto> dget pg k - 1)) (bg(k \<mapsto> v + 1)))"
proof -
  let ?av = "map fst (filter (\<lambda>(c, n). n > 0) (items pg))"
  let ?k = "?av ! ((case rs of [] \<Rightarrow> 0 | r # _ \<Rightarrow> r) mod length ?av)"
  have ne: "?av \<noteq> []" using assms(2) available_colors_set[of pg] by (metis empty_iff mem_Collect_eq set_empty)
  then have "?k \<in> set ?av" by (intro nth_mem) simp
  then have "0 < dget pg ?k" using available_colors_set[of pg] by auto
  moreover have "discard_loop rs t pg bg =
       (case bg ?k of None \<Rightarrow> Inl KeyError
        | Some v \<Rightarrow> discard_loop (tl rs) (t - 1) (pg(?k \<mapsto> dget pg ?k - 1)) (bg(?k \<mapsto> v + 1)))"
    by (subst discard_loop.simps) (simp only: assms(1) ne Let_def if_True if_False)
  ultimately show ?thesis using that by blast
qed

lemma discard_loop_empty:
  assumes "t > 10" "\<not> (\<exists>c. 0 < dget pg c)"
  shows "discard_loop rs t pg bg = Inr (pg, bg)"
proof -
  have "map fst (filter (\<lambda>(c, n). n > 0) (items pg)) = []"
    using assms(2) available_colors_set[of pg] by (metis (no_types, lifting) empty_Collect_eq set_empty)
  then show ?thesis using assms(1) by (subst discard_loop.simps) (simp add: Let_def)
qed

lemma discard_loop_effect:
  assumes "discard_loop rs t pg bg = Inr (pg', bg')"
  shows "(\<forall>c. dget pg' c + dget bg' c = dget pg c + dget bg c)
       \<and> ((\<forall>c. 0 \<le> dget pg c) \<longrightarrow> (\<forall>c. 0 \<le> dget pg' c))
       \<and> ((\<forall>c. 0 \<le> dget pg c) \<and> t = total pg \<longrightarrow> total pg' = min t 10)
       \<and> (t \<le> 10 \<longrightarrow> pg' = pg \<and> bg' = bg)
       \<and> dom pg' = dom pg \<and> dom bg' = dom bg"
  using assms
proof (induction "nat (t - 10)" arbitrary: rs t pg bg)
  case 0
  then have "t \<le> 10" by simp
  then show ?case using "0.prems" by (simp add: discard_loop_stop)
next
  case (Suc n)
  then have t: "t > 10" by simp
  show ?case
  proof (cases "\<exists>c. 0 < dget pg c")
    case False
    then have res: "pg' = pg" "bg' = bg"
      using Suc.prems discard_loop_empty[OF t False] by simp_all
    have "\<not> ((\<forall>c. 0 \<le> dget pg c) \<and> t = total pg)"
    proof
      assume a: "(\<forall>c. 0 \<le> dget pg c) \<and> t = total pg"
      then have "dget pg c = 0" for c using False by (metis order_le_less)
      then show False using a t by (simp add: total_def)
    qed
    then show ?thesis using res t by auto
  next
    case True
    from discard_loop_unfold[OF t True, of rs bg] obtain k where kpos: "0 < dget pg k"
      and unf: "discard_loop rs t pg bg =
       (case bg k of None \<Rightarrow> Inl KeyError
        | Some v \<Rightarrow> discard_loop (tl rs) (t - 1) (pg(k \<mapsto> dget pg k - 1)) (bg(k \<mapsto> v + 1)))"
      by blast
    from unf Suc.prems obtain v where v: "bg k = Some v"
      and run: "discard_loop (tl rs) (t - 1) (pg(k \<mapsto> dget pg k - 1)) (bg(k \<mapsto> v + 1)) = Inr (pg', bg')"
      by (auto split: option.splits)
    have bgk: "dget bg k = v" using v by (simp add: dget_def)
    have kdom: "pg k \<noteq> None" using kpos by (rule dget_pos_key)
    have n: "n = nat (t - 1 - 10)" using Suc.hyps(2) by simp
    note IH = Suc.hyps(1)[OF n run]
    have c1: "\<forall>c. dget pg' c + dget bg' c = dget pg c + dget bg c"
    proof
      fix c
      have "dget pg' c + dget bg' c = dget (pg(k \<mapsto> dget pg k - 1)) c + dget (bg(k \<mapsto> v + 1)) c"
        using IH by blast
      then show "dget pg' c + dget bg' c = dget pg c + dget bg c" using bgk by simp
    qed
    have nn: "(\<forall>c. 0 \<le> dget pg c) \<Longrightarrow> \<forall>c. 0 \<le> dget (pg(k \<mapsto> dget pg k - 1)) c"
      using kpos by simp
    have c2: "(\<forall>c. 0 \<le> dget pg c) \<longrightarrow> (\<forall>c. 0 \<le> dget pg' c)"
      using IH nn by blast
    have c3: "(\<forall>c. 0 \<le> dget pg c) \<and> t = total pg \<longrightarrow> total pg' = min t 10"
    proof
      assume a: "(\<forall>c. 0 \<le> dget pg c) \<and> t = total pg"
      have "t - 1 = total (pg(k \<mapsto> dget pg k - 1))" using a by (simp add: total_upd)
      then have "total pg' = min (t - 1) 10" using IH nn a by blast
      then show "total pg' = min t 10" using t by simp
    qed
    have "dom pg' = dom (pg(k \<mapsto> dget pg k - 1))" "dom bg' = dom (bg(k \<mapsto> v + 1))"
      using IH by blast+
    then have c4: "dom pg' = dom pg \<and> dom bg' = dom bg"
      using kdom v by auto
    show ?thesis using c1 c2 c3 c4 t by simp
  qed
qed

lemma discard_loop_no_error:
  assumes "\<forall>c. bg c \<noteq> None"
  shows "\<exists>r. discard_loop rs t pg bg = Inr r"
  using assms
proof (induction "nat (t - 10)" arbitrary: rs t pg bg)
  case 0
  then have "t \<le> 10" by simp
  then show ?case by (simp add: discard_loop_stop)
next
  case (Suc n)
  then have t: "t > 10" by simp
  show ?case
  proof (cases "\<exists>c. 0 < dget pg c")
    case False
    then show ?thesis using discard_loop_empty[OF t False] by simp
  next
    case True
    from discard_loop_unfold[OF t True, of rs bg] obtain k where
      unf: "discard_loop rs t pg bg =
       (case bg k of None \<Rightarrow> Inl KeyError
        | Some v \<Rightarrow> discard_loop (tl rs) (t - 1) (pg(k \<mapsto> dget pg k - 1)) (bg(k \<mapsto> v + 1)))"
      by blast
    obtain v where v: "bg k = Some v" using Suc.prems by auto
    have n: "n = nat (t - 1 - 10)" using Suc.hyps(2) by simp
    have "\<forall>c. (bg(k \<mapsto> v + 1)) c \<noteq> None" using Suc.prems by simp
    from Suc.hyps(1)[OF n this, of "tl rs" "pg(k \<mapsto> dget pg k - 1)"]
    obtain r where "discard_loop (tl rs) (t - 1) (pg(k \<mapsto> dget pg k - 1)) (bg(k \<mapsto> v + 1)) = Inr r"
      by blast
    then show ?thesis using unf v by simp
  qed
qed

section \<open>Winner determination\<close>

lemma potential_winners_scan:
  assumes "potential_winners ps ms mc pw = (ms', mc', pw')"
    and "pw = filter (\<lambda>p. get_score p = ms) seen"
    and "\<forall>p\<in>set seen. get_score p \<le> ms"
    and "mc = (if pw = [] then \<infinity> else enat (Min ((\<lambda>p. length (cards p)) ` set pw)))"
  shows "pw' = filter (\<lambda>p. get_score p = ms') (seen @ ps)
       \<and> (\<forall>p\<in>set (seen @ ps). get_score p \<le> ms')
       \<and> (ms' = ms \<or> ms' \<in> get_score ` set ps)
       \<and> mc' = (if pw' = [] then \<infinity> else enat (Min ((\<lambda>p. length (cards p)) ` set pw')))"
  using assms
proof (induction ps arbitrary: ms mc pw seen)
  case Nil
  then show ?case by auto
next
  case (Cons p ps)
  consider (gt) "get_score p > ms" | (eq) "get_score p = ms" | (lt) "get_score p < ms"
    by linarith
  then show ?case
  proof cases
    case gt
    have run: "potential_winners ps (get_score p) (enat (length (cards p))) [p] = (ms', mc', pw')"
      using Cons.prems(1) gt by (simp add: Let_def)
    have a: "[p] = filter (\<lambda>q. get_score q = get_score p) (seen @ [p])"
      using Cons.prems(3) gt by (auto simp: filter_empty_conv)
    have b: "\<forall>q\<in>set (seen @ [p]). get_score q \<le> get_score p"
      using Cons.prems(3) gt by auto
    have c: "enat (length (cards p)) =
        (if [p] = [] then \<infinity> else enat (Min ((\<lambda>p. length (cards p)) ` set [p])))"
      by simp
    from Cons.IH[OF run a b c] show ?thesis by auto
  next
    case eq
    have run: "potential_winners ps ms (min mc (enat (length (cards p)))) (pw @ [p]) = (ms', mc', pw')"
      using Cons.prems(1) eq by (simp add: Let_def)
    have a: "pw @ [p] = filter (\<lambda>q. get_score q = ms) (seen @ [p])"
      using Cons.prems(2) eq by simp
    have b: "\<forall>q\<in>set (seen @ [p]). get_score q \<le> ms"
      using Cons.prems(3) eq by auto
    have c: "min mc (enat (length (cards p))) =
        (if pw @ [p] = [] then \<infinity>
         else enat (Min ((\<lambda>p. length (cards p)) ` set (pw @ [p]))))"
    proof (cases "pw = []")
      case True
      then show ?thesis using Cons.prems(4) by simp
    next
      case False
      then have "Min ((\<lambda>p. length (cards p)) ` set (pw @ [p]))
          = min (length (cards p)) (Min ((\<lambda>p. length (cards p)) ` set pw))"
        by simp
      then show ?thesis using Cons.prems(4) False by (simp add: min.commute)
    qed
    from Cons.IH[OF run a b c] show ?thesis by auto
  next
    case lt
    have run: "potential_winners ps ms mc pw = (ms', mc', pw')"
      using Cons.prems(1) lt by (simp add: Let_def)
    have a: "pw = filter (\<lambda>q. get_score q = ms) (seen @ [p])"
      using Cons.prems(2) lt by simp
    have b: "\<forall>q\<in>set (seen @ [p]). get_score q \<le> ms"
      using Cons.prems(3) lt by auto
    from Cons.IH[OF run a b Cons.prems(4)] show ?thesis by auto
  qed
qed

lemma late_scores: "get_score late_alice = 14" "get_score late_bob = 14"
  "length (cards late_alice) = 4" "length (cards late_bob) = 5"
  by (simp_all add: get_score_def late_alice_def late_bob_def new_player_def pick_def
      create_standard_cards_def)

section \<open>Affordability and the actual cost\<close>

lemma can_afford_fold:
  "fold (\<lambda>(color, cst) gold_needed.
            if dget (gems p) color + dget d color < cst
            then gold_needed + (cst - (dget (gems p) color + dget d color)) else gold_needed) es a
   = a + sum_list (map (shortfall p d) es)"
  by (induction es arbitrary: a) (auto simp: shortfall_def)

lemma can_afford_card_iff:
  "can_afford_card p crd \<longleftrightarrow>
     sum_list (map (shortfall p (get_card_discounts p)) (cost crd)) \<le> dget (gems p) GOLD"
  by (simp add: can_afford_card_def Let_def can_afford_fold)

lemma shortfall_nonneg: "0 \<le> shortfall p d e"
  by (simp add: shortfall_def)

lemma shortfall_le_sum: "e \<in> set es \<Longrightarrow> shortfall p d e \<le> sum_list (map (shortfall p d) es)"
proof (induction es)
  case Nil
  then show ?case by simp
next
  case (Cons x es)
  have "0 \<le> sum_list (map (shortfall p d) es)"
    by (rule sum_list_nonneg) (auto simp: shortfall_nonneg)
  then show ?case using Cons shortfall_nonneg[of p d x] by auto
qed

lemma gold_needed_for_bounds:
  assumes "0 \<le> dget (gems p) (fst e)"
  shows "0 \<le> gold_needed_for p d e" "gold_needed_for p d e \<le> shortfall p d e"
  using assms by (auto simp: gold_needed_for_def shortfall_def Let_def)

lemma gold_needed_for_exact:
  assumes "0 \<le> dget (gems p) (fst e)" "shortfall p d e \<le> dget (gems p) GOLD"
  shows "gold_needed_for p d e = shortfall p d e"
  using assms by (auto simp: gold_needed_for_def shortfall_def Let_def)

lemma actual_cost_step_eq:
  "actual_cost_step p d e ac =
     (if snd e - dget d (fst e) > 0 then
        (let ac1 = ac(fst e \<mapsto> min (snd e - dget d (fst e)) (dget (gems p) (fst e)))
         in if gold_needed_for p d e > 0
            then ac1(GOLD \<mapsto> dget ac1 GOLD + gold_needed_for p d e) else ac1)
      else ac)"
  by (auto simp: actual_cost_step_def gold_needed_for_def Let_def)

lemma actual_cost_step_gold:
  assumes "fst e \<noteq> GOLD" "0 \<le> dget (gems p) (fst e)"
  shows "dget (actual_cost_step p d e ac) GOLD = dget ac GOLD + gold_needed_for p d e"
proof -
  have "snd e - dget d (fst e) \<le> 0 \<Longrightarrow> gold_needed_for p d e = 0"
    by (simp add: gold_needed_for_def Let_def)
  moreover have "0 \<le> gold_needed_for p d e" using assms(2) by (rule gold_needed_for_bounds)
  ultimately show ?thesis using assms(1)
    by (auto simp: actual_cost_step_eq Let_def)
qed

lemma actual_cost_step_other:
  assumes "c \<noteq> GOLD" "c \<noteq> fst e"
  shows "dget (actual_cost_step p d e ac) c = dget ac c"
  using assms by (auto simp: actual_cost_step_eq Let_def)

lemma actual_cost_step_own:
  assumes "fst e \<noteq> GOLD"
  shows "dget (actual_cost_step p d e ac) (fst e) =
     (if snd e - dget d (fst e) > 0 then min (snd e - dget d (fst e)) (dget (gems p) (fst e))
      else dget ac (fst e))"
  using assms by (auto simp: actual_cost_step_eq Let_def)

lemma actual_cost_fold_gold:
  assumes "GOLD \<notin> fst ` set es" "\<forall>c. 0 \<le> dget (gems p) c"
  shows "dget (fold (actual_cost_step p d) es ac) GOLD
     = dget ac GOLD + sum_list (map (gold_needed_for p d) es)"
  using assms(1)
proof (induction es arbitrary: ac)
  case Nil
  then show ?case by simp
next
  case (Cons e es)
  then have "fst e \<noteq> GOLD" by auto
  then have "dget (actual_cost_step p d e ac) GOLD = dget ac GOLD + gold_needed_for p d e"
    using assms(2) by (intro actual_cost_step_gold) auto
  then show ?case using Cons by simp
qed

lemma actual_cost_fold_range:
  assumes "c \<noteq> GOLD" "\<forall>c. 0 \<le> dget (gems p) c"
    "0 \<le> dget ac c" "dget ac c \<le> dget (gems p) c"
  shows "0 \<le> dget (fold (actual_cost_step p d) es ac) c
       \<and> dget (fold (actual_cost_step p d) es ac) c \<le> dget (gems p) c"
  using assms(3,4)
proof (induction es arbitrary: ac)
  case Nil
  then show ?case by simp
next
  case (Cons e es)
  have "0 \<le> dget (actual_cost_step p d e ac) c \<and> dget (actual_cost_step p d e ac) c \<le> dget (gems p) c"
  proof (cases "c = fst e")
    case True
    then show ?thesis using assms(1,2) Cons.prems actual_cost_step_own[of e p d ac]
      by (auto simp: min_def)
  next
    case False
    then show ?thesis using assms(1) Cons.prems by (simp add: actual_cost_step_other)
  qed
  then show ?case using Cons.IH by simp
qed

lemma actual_cost_fold_untouched:
  assumes "c \<noteq> GOLD" "c \<notin> fst ` set es"
  shows "dget (fold (actual_cost_step p d) es ac) c = dget ac c"
  using assms(2)
proof (induction es arbitrary: ac)
  case Nil
  then show ?case by simp
next
  case (Cons e es)
  then show ?case using assms(1) by (simp add: actual_cost_step_other)
qed

lemma actual_cost_fold_own:
  assumes "c \<noteq> GOLD" "distinct (map fst es)" "(c, n) \<in> set es" "n - dget d c > 0"
  shows "dget (fold (actual_cost_step p d) es ac) c = min (n - dget d c) (dget (gems p) c)"
  using assms(2,3)
proof (induction es arbitrary: ac)
  case Nil
  then show ?case by simp
next
  case (Cons e es)
  show ?case
  proof (cases "e = (c, n)")
    case True
    then have "c \<notin> fst ` set es" using Cons.prems(1) by auto
    then have "dget (fold (actual_cost_step p d) es (actual_cost_step p d e ac)) c
        = dget (actual_cost_step p d e ac) c"
      using assms(1) by (rule actual_cost_fold_untouched[rotated])
    then show ?thesis
      using True assms(1,4) actual_cost_step_own[of e p d ac] by simp
  next
    case False
    then show ?thesis using Cons by auto
  qed
qed

text \<open>The payment of an affordable card stays within the player's holdings.\<close>

lemma actual_cost_within_holdings:
  assumes "can_afford_card p crd" "\<forall>c. 0 \<le> dget (gems p) c" "GOLD \<notin> fst ` set (cost crd)"
  shows "0 \<le> dget (get_actual_cost p crd) c" "dget (get_actual_cost p crd) c \<le> dget (gems p) c"
proof -
  let ?d = "get_card_discounts p"
  have both: "0 \<le> dget (get_actual_cost p crd) c \<and> dget (get_actual_cost p crd) c \<le> dget (gems p) c"
  proof (cases "c = GOLD")
    case False
    then show ?thesis
      unfolding get_actual_cost_def using assms(2) by (intro actual_cost_fold_range) auto
  next
    case True
    have g: "dget (get_actual_cost p crd) GOLD = sum_list (map (gold_needed_for p ?d) (cost crd))"
      unfolding get_actual_cost_def using actual_cost_fold_gold[OF assms(3,2)] by simp
    have "sum_list (map (gold_needed_for p ?d) (cost crd)) \<le> sum_list (map (shortfall p ?d) (cost crd))"
      by (rule sum_list_mono) (use assms(2) gold_needed_for_bounds in auto)
    moreover have "0 \<le> sum_list (map (gold_needed_for p ?d) (cost crd))"
      by (rule sum_list_nonneg) (use assms(2) gold_needed_for_bounds in auto)
    ultimately show ?thesis using g True assms(1) by (simp add: can_afford_card_iff)
  qed
  then show "0 \<le> dget (get_actual_cost p crd) c" "dget (get_actual_cost p crd) c \<le> dget (gems p) c"
    by simp_all
qed

lemma actual_cost_covers:
  assumes "can_afford_card p crd" "\<forall>c. 0 \<le> dget (gems p) c" "GOLD \<notin> fst ` set (cost crd)"
    "distinct (map fst (cost crd))" "(c, n) \<in> set (cost crd)"
  shows "n \<le> dget (get_card_discounts p) c + dget (get_actual_cost p crd) c
            + gold_needed_for p (get_card_discounts p) (c, n)"
proof -
  let ?d = "get_card_discounts p"
  have cg: "c \<noteq> GOLD" using assms(3,5) by force
  have "shortfall p ?d (c, n) \<le> dget (gems p) GOLD"
    using shortfall_le_sum[OF assms(5), of p ?d] assms(1) by (simp add: can_afford_card_iff)
  then have gn: "gold_needed_for p ?d (c, n) = shortfall p ?d (c, n)"
    using assms(2) by (intro gold_needed_for_exact) auto
  show ?thesis
  proof (cases "n - dget ?d c > 0")
    case True
    have "dget (get_actual_cost p crd) c = min (n - dget ?d c) (dget (gems p) c)"
      unfolding get_actual_cost_def by (rule actual_cost_fold_own[OF cg assms(4,5) True])
    then show ?thesis using gn by (simp add: shortfall_def)
  next
    case False
    moreover have "0 \<le> dget (get_actual_cost p crd) c"
      by (rule actual_cost_within_holdings[OF assms(1,2,3)])
    moreover have "0 \<le> gold_needed_for p ?d (c, n)" using gn shortfall_nonneg by simp
    ultimately show ?thesis by linarith
  qed
qed

lemma example_cards:
  "card_L1_W1 = \<lparr>level = 1, points = 0, gem_color = WHITE,
      cost = [(BLUE, 1), (GREEN, 1), (RED, 1), (BLACK, 1)], card_id = ''L1_W1''\<rparr>"
  "card_L1_W4 = \<lparr>level = 1, points = 1, gem_color = WHITE, cost = [(BLUE, 4)], card_id = ''L1_W4''\<rparr>"
  by (simp_all add: card_L1_W1_def card_L1_W4_def create_standard_cards_def)

lemma no_cards_discounts: "cards p = [] \<Longrightarrow> dget (get_card_discounts p) c = 0"
  by (cases c) (simp_all add: get_card_discounts_def)

section \<open>Board operations\<close>

lemma find_index_None: "find_index P xs = None \<longleftrightarrow> (\<forall>x\<in>set xs. \<not> P x)"
  by (induction xs) auto

lemma find_index_Some:
  "find_index P xs = Some i \<Longrightarrow> i < length xs \<and> P (xs ! i) \<and> (\<forall>j<i. \<not> P (xs ! j))"
proof (induction xs arbitrary: i)
  case Nil
  then show ?case by simp
next
  case (Cons x xs)
  show ?case
  proof (cases "P x")
    case True
    then show ?thesis using Cons.prems by simp
  next
    case False
    then obtain k where k: "find_index P xs = Some k" "i = Suc k"
      using Cons.prems by auto
    from Cons.IH[OF k(1)] False k(2) show ?thesis
      by (auto simp: less_Suc_eq_0_disj)
  qed
qed

lemma find_find_index:
  "find P xs = (case find_index P xs of None \<Rightarrow> None | Some i \<Rightarrow> Some (xs ! i))"
  by (induction xs) (auto split: option.splits)

lemma mset_pop_at: "i < length xs \<Longrightarrow> mset xs = mset (pop_at i xs) + {#xs ! i#}"
proof -
  assume "i < length xs"
  then have "xs = take i xs @ xs ! i # drop (Suc i) xs" by (simp add: id_take_nth_drop)
  then have "mset xs = mset (take i xs @ xs ! i # drop (Suc i) xs)" by simp
  then show ?thesis by (simp add: pop_at_def)
qed

lemma set_pop_at: "set (pop_at i xs) \<subseteq> set xs"
  by (auto simp: pop_at_def dest: in_set_takeD in_set_dropD)

lemma length_pop_at: "i < length xs \<Longrightarrow> length (pop_at i xs) = length xs - 1"
  by (auto simp: pop_at_def)

lemma topped_up_snoc:
  assumes "length disp < 4"
  shows "topped_up (disp @ [y]) ys = topped_up disp (ys @ [y])"
proof -
  let ?m = "min (4 - length (disp @ [y])) (length ys)"
  have n: "min (4 - length disp) (length (ys @ [y])) = Suc ?m" using assms by auto
  have m: "?m \<le> length ys" by simp
  have d1: "drop (length (ys @ [y]) - Suc ?m) (ys @ [y]) = drop (length ys - ?m) ys @ [y]"
    using m by simp
  have t1: "take (length (ys @ [y]) - Suc ?m) (ys @ [y]) = take (length ys - ?m) ys"
    using m by simp
  show ?thesis
    unfolding topped_up_def Let_def n d1 t1 by simp
qed

lemma replenish_level_topped_up: "replenish_level disp deck = topped_up disp deck"
proof (induction disp deck rule: replenish_level.induct)
  case (1 disp deck)
  show ?case
  proof (cases "length disp < 4 \<and> deck \<noteq> []")
    case False
    then show ?thesis
      by (subst replenish_level.simps) (auto simp: topped_up_def Let_def)
  next
    case True
    then obtain ys y where deck: "deck = ys @ [y]" by (metis rev_exhaust)
    have "replenish_level disp deck = replenish_level (disp @ [last deck]) (butlast deck)"
      using True by (subst replenish_level.simps) simp
    also have "\<dots> = topped_up (disp @ [last deck]) (butlast deck)"
      using True by (rule "1.IH")
    also have "\<dots> = topped_up disp deck"
      using True topped_up_snoc[of disp y ys] by (simp add: deck)
    finally show ?thesis .
  qed
qed

lemma topped_up_mset: "topped_up disp deck = (d', k') \<Longrightarrow> mset d' + mset k' = mset disp + mset deck"
proof -
  assume a: "topped_up disp deck = (d', k')"
  let ?n = "min (4 - length disp) (length deck)"
  have "mset (take (length deck - ?n) deck) + mset (drop (length deck - ?n) deck) = mset deck"
    by (metis append_take_drop_id mset_append)
  then show ?thesis using a by (auto simp: topped_up_def Let_def add.commute)
qed

lemma topped_up_set: "topped_up disp deck = (d', k') \<Longrightarrow> set d' \<union> set k' = set disp \<union> set deck"
  using topped_up_mset[of disp deck d' k'] by (metis mset_append set_append set_mset_mset)

lemma topped_up_full: "length disp \<ge> 4 \<or> deck = [] \<Longrightarrow> topped_up disp deck = (disp, deck)"
  by (auto simp: topped_up_def)

lemma board_levels_keys:
  assumes "board_levels b" "l \<in> {1, 2, 3}"
  shows "displayed_cards b l = Some (disp_of b l)" "card_decks b l = Some (deck_of b l)"
proof -
  have "l \<in> dom (displayed_cards b)" "l \<in> dom (card_decks b)"
    using assms by (auto simp: board_levels_def)
  then show "displayed_cards b l = Some (disp_of b l)" "card_decks b l = Some (deck_of b l)"
    by (auto simp: disp_of_def deck_of_def level_get_def)
qed

lemma board_levels_update:
  assumes "board_levels b" "l \<in> {1, 2, 3}"
  shows "board_levels (b\<lparr>card_decks := (card_decks b)(l \<mapsto> k), displayed_cards := (displayed_cards b)(l \<mapsto> d)\<rparr>)"
    "board_levels (b\<lparr>displayed_cards := (displayed_cards b)(l \<mapsto> d)\<rparr>)"
    "board_levels (b\<lparr>card_decks := (card_decks b)(l \<mapsto> k)\<rparr>)"
    "board_levels (b\<lparr>board_gems := x\<rparr>)"
  using assms by (auto simp: board_levels_def)

lemma level_of_update [simp]:
  "disp_of (b\<lparr>displayed_cards := (displayed_cards b)(l \<mapsto> d)\<rparr>) l' = (if l' = l then d else disp_of b l')"
  "deck_of (b\<lparr>card_decks := (card_decks b)(l \<mapsto> k)\<rparr>) l' = (if l' = l then k else deck_of b l')"
  "disp_of (b\<lparr>card_decks := x\<rparr>) l' = disp_of b l'"
  "deck_of (b\<lparr>displayed_cards := y\<rparr>) l' = deck_of b l'"
  "disp_of (b\<lparr>board_gems := z\<rparr>) l' = disp_of b l'"
  "deck_of (b\<lparr>board_gems := z\<rparr>) l' = deck_of b l'"
  "disp_of (b\<lparr>board_nobles := w\<rparr>) l' = disp_of b l'"
  "deck_of (b\<lparr>board_nobles := w\<rparr>) l' = deck_of b l'"
  by (simp_all add: disp_of_def deck_of_def level_get_def)

text \<open>What topping up one level does to a board with the three levels.\<close>

lemma replenish_one_effect:
  assumes "board_levels b" "l \<in> {1, 2, 3}"
  shows "\<exists>b'. replenish_one l b = Inr b' \<and> board_levels b'
      \<and> board_gems b' = board_gems b \<and> board_nobles b' = board_nobles b
      \<and> (disp_of b' l, deck_of b' l) = topped_up (disp_of b l) (deck_of b l)
      \<and> (\<forall>l'. l' \<noteq> l \<longrightarrow> disp_of b' l' = disp_of b l' \<and> deck_of b' l' = deck_of b l')"
proof (cases "length (disp_of b l) < 4")
  case False
  then have "replenish_one l b = Inr b"
    using board_levels_keys[OF assms] by (simp add: replenish_one_def)
  moreover have "topped_up (disp_of b l) (deck_of b l) = (disp_of b l, deck_of b l)"
    using False by (intro topped_up_full) simp
  ultimately show ?thesis using assms(1) by simp
next
  case True
  obtain d' k' where t: "topped_up (disp_of b l) (deck_of b l) = (d', k')" by force
  let ?b' = "b\<lparr>card_decks := (card_decks b)(l \<mapsto> k'), displayed_cards := (displayed_cards b)(l \<mapsto> d')\<rparr>"
  have "replenish_one l b = Inr ?b'"
    using True board_levels_keys[OF assms] t
    by (simp add: replenish_one_def replenish_level_topped_up)
  moreover have "board_levels ?b'" using assms by (rule board_levels_update)
  ultimately show ?thesis using t by (simp add: disp_of_def deck_of_def level_get_def)
qed

lemma replenish_displayed_cards_effect:
  assumes "board_levels b"
  shows "\<exists>b'. replenish_displayed_cards b = Inr b' \<and> board_levels b'
      \<and> board_gems b' = board_gems b \<and> board_nobles b' = board_nobles b
      \<and> (\<forall>l\<in>{1, 2, 3}. (disp_of b' l, deck_of b' l) = topped_up (disp_of b l) (deck_of b l))"
proof -
  from replenish_one_effect[OF assms, of 1] obtain b1 where b1: "replenish_one 1 b = Inr b1"
    "board_levels b1" "board_gems b1 = board_gems b" "board_nobles b1 = board_nobles b"
    "(disp_of b1 1, deck_of b1 1) = topped_up (disp_of b 1) (deck_of b 1)"
    "\<forall>l'. l' \<noteq> 1 \<longrightarrow> disp_of b1 l' = disp_of b l' \<and> deck_of b1 l' = deck_of b l'"
    by auto
  from replenish_one_effect[OF b1(2), of 2] obtain b2 where b2: "replenish_one 2 b1 = Inr b2"
    "board_levels b2" "board_gems b2 = board_gems b1" "board_nobles b2 = board_nobles b1"
    "(disp_of b2 2, deck_of b2 2) = topped_up (disp_of b1 2) (deck_of b1 2)"
    "\<forall>l'. l' \<noteq> 2 \<longrightarrow> disp_of b2 l' = disp_of b1 l' \<and> deck_of b2 l' = deck_of b1 l'"
    by auto
  from replenish_one_effect[OF b2(2), of 3] obtain b3 where b3: "replenish_one 3 b2 = Inr b3"
    "board_levels b3" "board_gems b3 = board_gems b2" "board_nobles b3 = board_nobles b2"
    "(disp_of b3 3, deck_of b3 3) = topped_up (disp_of b2 3) (deck_of b2 3)"
    "\<forall>l'. l' \<noteq> 3 \<longrightarrow> disp_of b3 l' = disp_of b2 l' \<and> deck_of b3 l' = deck_of b2 l'"
    by auto
  have run: "replenish_displayed_cards b = Inr b3"
    by (simp add: replenish_displayed_cards_def ebind_def b1(1) b2(1) b3(1))
  have l1: "(disp_of b3 1, deck_of b3 1) = topped_up (disp_of b 1) (deck_of b 1)"
    using b1(5) b2(6) b3(6) by simp
  have l2: "(disp_of b3 2, deck_of b3 2) = topped_up (disp_of b 2) (deck_of b 2)"
    using b1(6) b2(5) b3(6) by simp
  have l3: "(disp_of b3 3, deck_of b3 3) = topped_up (disp_of b 3) (deck_of b 3)"
    using b1(6) b2(6) b3(5) by simp
  show ?thesis
    using run b3(2) b1(3,4) b2(3,4) b3(3,4) l1 l2 l3 by simp
qed

lemma board_cards_eq:
  "board_cards b = deck_of b 1 @ disp_of b 1 @ deck_of b 2 @ disp_of b 2 @ deck_of b 3 @ disp_of b 3"
  by (simp add: board_cards_def)

text \<open>Topping up moves cards from a deck to its display and nothing else.\<close>

lemma topped_up_board:
  assumes "\<forall>l\<in>{1, 2, 3}. (disp_of b' l, deck_of b' l) = topped_up (disp_of b l) (deck_of b l)"
  shows "mset (board_cards b') = mset (board_cards b)"
    and "levels_sorted b \<Longrightarrow> levels_sorted b'"
proof -
  have m: "mset (disp_of b' l) + mset (deck_of b' l) = mset (disp_of b l) + mset (deck_of b l)"
    if "l \<in> {1, 2, 3}" for l
    using assms that topped_up_mset[of "disp_of b l" "deck_of b l" "disp_of b' l" "deck_of b' l"]
    by auto
  from m[of 1] m[of 2] m[of 3] show "mset (board_cards b') = mset (board_cards b)"
    by (simp add: board_cards_eq ac_simps)
  have s: "set (deck_of b' l @ disp_of b' l) = set (deck_of b l @ disp_of b l)"
    if "l \<in> {1, 2, 3}" for l
    using m[OF that] by (metis add.commute mset_append set_mset_mset)
  show "levels_sorted b \<Longrightarrow> levels_sorted b'"
    unfolding levels_sorted_def using s by blast
qed

lemma remove_displayed_card_absent:
  assumes "displayed_cards b lvl = Some disp" "cid \<notin> card_id ` set disp"
  shows "remove_displayed_card b lvl cid = Inr (None, b)"
proof -
  have "find_index (\<lambda>c. card_id c = cid) disp = None"
    using assms(2) by (auto simp: find_index_None)
  then show ?thesis using assms(1) by (simp add: remove_displayed_card_def)
qed

lemma remove_displayed_card_found:
  assumes "board_levels b" "lvl \<in> {1, 2, 3}" "find_index (\<lambda>c. card_id c = cid) (disp_of b lvl) = Some i"
  shows "\<exists>b'. remove_displayed_card b lvl cid = Inr (Some (disp_of b lvl ! i), b')
      \<and> board_gems b' = board_gems b \<and> board_nobles b' = board_nobles b \<and> board_levels b'
      \<and> (disp_of b' lvl, deck_of b' lvl) = topped_up (pop_at i (disp_of b lvl)) (deck_of b lvl)
      \<and> (\<forall>l\<in>{1, 2, 3}. l \<noteq> lvl \<longrightarrow>
            (disp_of b' l, deck_of b' l) = topped_up (disp_of b l) (deck_of b l))"
proof -
  let ?b1 = "b\<lparr>displayed_cards := (displayed_cards b)(lvl \<mapsto> pop_at i (disp_of b lvl))\<rparr>"
  have lv: "board_levels ?b1" using assms(1,2) by (rule board_levels_update)
  from replenish_displayed_cards_effect[OF lv] obtain b' where b':
    "replenish_displayed_cards ?b1 = Inr b'" "board_levels b'"
    "board_gems b' = board_gems ?b1" "board_nobles b' = board_nobles ?b1"
    "\<forall>l\<in>{1, 2, 3}. (disp_of b' l, deck_of b' l) = topped_up (disp_of ?b1 l) (deck_of ?b1 l)"
    by blast
  have r: "remove_displayed_card b lvl cid = Inr (Some (disp_of b lvl ! i), b')"
    using board_levels_keys[OF assms(1,2)] assms(3) b'(1)
    by (simp add: remove_displayed_card_def ebind_def Let_def)
  have own: "(disp_of b' lvl, deck_of b' lvl) = topped_up (pop_at i (disp_of b lvl)) (deck_of b lvl)"
  proof -
    have "(disp_of b' lvl, deck_of b' lvl) = topped_up (disp_of ?b1 lvl) (deck_of ?b1 lvl)"
      using b'(5) assms(2) by blast
    then show ?thesis by simp
  qed
  have others: "\<forall>l\<in>{1, 2, 3}. l \<noteq> lvl \<longrightarrow>
            (disp_of b' l, deck_of b' l) = topped_up (disp_of b l) (deck_of b l)"
  proof (intro ballI impI)
    fix l :: int assume l: "l \<in> {1, 2, 3}" "l \<noteq> lvl"
    have "(disp_of b' l, deck_of b' l) = topped_up (disp_of ?b1 l) (deck_of ?b1 l)"
      using b'(5) l(1) by blast
    then show "(disp_of b' l, deck_of b' l) = topped_up (disp_of b l) (deck_of b l)"
      using l(2) by simp
  qed
  have g: "board_gems b' = board_gems b" and n: "board_nobles b' = board_nobles b"
    using b'(3,4) by simp_all
  show ?thesis
    by (intro exI[of _ b'] conjI) (rule r g n b'(2) own others)+
qed

lemma find_index_exists: "\<exists>x\<in>set xs. P x \<Longrightarrow> \<exists>i. find_index P xs = Some i"
  using find_index_None[of P xs] by (cases "find_index P xs") auto

section \<open>Moving tokens\<close>

lemma full_dict_dom: "full_dict d \<longleftrightarrow> dom d = UNIV"
  by (auto simp: full_dict_def)

lemma full_dict_upd: "full_dict d \<Longrightarrow> full_dict (d(c \<mapsto> v))"
  by (simp add: full_dict_def)

lemma dget_map_of_notin: "k \<notin> fst ` set kvs \<Longrightarrow> dget (map_of kvs) k = 0"
proof -
  assume "k \<notin> fst ` set kvs"
  then have "map_of kvs k = None" by (simp add: map_of_eq_None_iff)
  then show ?thesis by (simp add: dget_def)
qed

lemma dget_map_of_Cons [simp]:
  "dget (map_of ((k, n) # kvs)) c = (if c = k then n else dget (map_of kvs) c)"
  by (simp add: dget_def)

lemma subtract_gems_effect:
  assumes "distinct (map fst kvs)" "\<forall>c\<in>fst ` set kvs. d c \<noteq> None"
  shows "\<exists>d'. subtract_gems d kvs = Inr d'
      \<and> (\<forall>c. dget d' c = dget d c - dget (map_of kvs) c) \<and> dom d' = dom d"
  using assms
proof (induction kvs arbitrary: d)
  case Nil
  then show ?case by simp
next
  case (Cons kv kvs)
  obtain k n where kv: "kv = (k, n)" by (cases kv)
  from Cons.prems(2) kv obtain v where v: "d k = Some v" by auto
  have k: "k \<notin> fst ` set kvs" using Cons.prems(1) kv by auto
  have d: "distinct (map fst kvs)" using Cons.prems(1) by simp
  have keys: "\<forall>c\<in>fst ` set kvs. (d(k \<mapsto> v - n)) c \<noteq> None" using Cons.prems(2) by auto
  from Cons.IH[OF d keys] obtain d' where d': "subtract_gems (d(k \<mapsto> v - n)) kvs = Inr d'"
    "\<forall>c. dget d' c = dget (d(k \<mapsto> v - n)) c - dget (map_of kvs) c"
    "dom d' = dom (d(k \<mapsto> v - n))"
    by blast
  have run: "subtract_gems d (kv # kvs) = Inr d'" using kv v d'(1) by simp
  have mk: "dget (map_of kvs) k = 0" using k by (rule dget_map_of_notin)
  have dk: "dget d k = v" using v by (rule dget_Some)
  have eff: "dget d' c = dget d c - dget (map_of (kv # kvs)) c" for c
  proof -
    have "dget d' c = dget (d(k \<mapsto> v - n)) c - dget (map_of kvs) c" using d'(2) by blast
    then show ?thesis using kv mk dk by simp
  qed
  have "dom d' = dom d" using d'(3) v by auto
  then show ?case using run eff by blast
qed

lemma take_gems_ok:
  assumes "full_dict (board_gems b)" "\<forall>c n. m c = Some n \<longrightarrow> n \<le> dget (board_gems b) c"
  shows "\<exists>bg'. take_gems b m = Inr (True, b\<lparr>board_gems := bg'\<rparr>)
      \<and> (\<forall>c. dget bg' c = dget (board_gems b) c - dget m c) \<and> full_dict bg'"
proof -
  have nocheck: "\<not> list_ex (\<lambda>(color, n). dget (board_gems b) color < n) (items m)"
  proof
    assume "list_ex (\<lambda>(color, n). dget (board_gems b) color < n) (items m)"
    then obtain c n where cn: "(c, n) \<in> set (items m)" "dget (board_gems b) c < n"
      by (auto simp: list_ex_iff)
    then have "m c = Some n" by (simp add: set_items)
    then have "n \<le> dget (board_gems b) c" using assms(2) by blast
    then show False using cn(2) by simp
  qed
  have "\<forall>c\<in>fst ` set (items m). board_gems b c \<noteq> None"
    using assms(1) by (simp add: full_dict_def)
  from subtract_gems_effect[OF distinct_items this] obtain d' where d':
    "subtract_gems (board_gems b) (items m) = Inr d'"
    "\<forall>c. dget d' c = dget (board_gems b) c - dget (map_of (items m)) c" "dom d' = dom (board_gems b)"
    by blast
  have "take_gems b m = Inr (True, b\<lparr>board_gems := d'\<rparr>)"
    using nocheck d'(1) by (simp add: take_gems_def ebind_def)
  moreover have "full_dict d'" using d'(3) assms(1) by (simp add: full_dict_dom)
  ultimately show ?thesis using d'(2) by (auto simp: map_of_items)
qed

lemma add_gems_effect:
  assumes "distinct (map fst kvs)"
  shows "(\<forall>c. dget (fold (\<lambda>(c, n) d. d(c \<mapsto> dget d c + n)) kvs d) c = dget d c + dget (map_of kvs) c)
      \<and> dom d \<subseteq> dom (fold (\<lambda>(c, n) d. d(c \<mapsto> dget d c + n)) kvs d)"
  using assms
proof (induction kvs arbitrary: d)
  case Nil
  then show ?case by simp
next
  case (Cons kv kvs)
  obtain k n where kv: "kv = (k, n)" by (cases kv)
  have k: "k \<notin> fst ` set kvs" using Cons.prems kv by auto
  have d: "distinct (map fst kvs)" using Cons.prems by simp
  have mk: "dget (map_of kvs) k = 0" using k by (rule dget_map_of_notin)
  note IH = Cons.IH[OF d, of "d(k \<mapsto> dget d k + n)"]
  have step: "fold (\<lambda>(c, n) d. d(c \<mapsto> dget d c + n)) (kv # kvs) d
      = fold (\<lambda>(c, n) d. d(c \<mapsto> dget d c + n)) kvs (d(k \<mapsto> dget d k + n))"
    using kv by simp
  have eff: "dget (fold (\<lambda>(c, n) d. d(c \<mapsto> dget d c + n)) (kv # kvs) d) c
      = dget d c + dget (map_of (kv # kvs)) c" for c
  proof -
    have "dget (fold (\<lambda>(c, n) d. d(c \<mapsto> dget d c + n)) kvs (d(k \<mapsto> dget d k + n))) c
        = dget (d(k \<mapsto> dget d k + n)) c + dget (map_of kvs) c"
      using IH by blast
    then show ?thesis unfolding step using kv mk by simp
  qed
  have "dom (d(k \<mapsto> dget d k + n)) \<subseteq> dom (fold (\<lambda>(c, n) d. d(c \<mapsto> dget d c + n)) kvs (d(k \<mapsto> dget d k + n)))"
    using IH by blast
  then have "dom d \<subseteq> dom (fold (\<lambda>(c, n) d. d(c \<mapsto> dget d c + n)) (kv # kvs) d)"
    unfolding step by auto
  then show ?case using eff by blast
qed

lemma pay_gems_effect:
  assumes "distinct (map fst kvs)" "\<forall>c\<in>fst ` set kvs. pg c \<noteq> None"
  shows "\<exists>pg' bg'. pay_gems kvs pg bg = Inr (pg', bg')
      \<and> (\<forall>c. dget pg' c = dget pg c - dget (map_of kvs) c)
      \<and> (\<forall>c. dget bg' c = dget bg c + dget (map_of kvs) c)
      \<and> dom pg' = dom pg \<and> dom bg \<subseteq> dom bg'"
  using assms
proof (induction kvs arbitrary: pg bg)
  case Nil
  then show ?case by simp
next
  case (Cons kv kvs)
  obtain k n where kv: "kv = (k, n)" by (cases kv)
  from Cons.prems(2) kv obtain v where v: "pg k = Some v" by auto
  have k: "k \<notin> fst ` set kvs" using Cons.prems(1) kv by auto
  have d: "distinct (map fst kvs)" using Cons.prems(1) by simp
  have keys: "\<forall>c\<in>fst ` set kvs. (pg(k \<mapsto> v - n)) c \<noteq> None" using Cons.prems(2) by auto
  from Cons.IH[OF d keys, of "bg(k \<mapsto> dget bg k + n)"] obtain pg' bg' where r:
    "pay_gems kvs (pg(k \<mapsto> v - n)) (bg(k \<mapsto> dget bg k + n)) = Inr (pg', bg')"
    "\<forall>c. dget pg' c = dget (pg(k \<mapsto> v - n)) c - dget (map_of kvs) c"
    "\<forall>c. dget bg' c = dget (bg(k \<mapsto> dget bg k + n)) c + dget (map_of kvs) c"
    "dom pg' = dom (pg(k \<mapsto> v - n))" "dom (bg(k \<mapsto> dget bg k + n)) \<subseteq> dom bg'"
    by blast
  have run: "pay_gems (kv # kvs) pg bg = Inr (pg', bg')" using kv v r(1) by simp
  have mk: "dget (map_of kvs) k = 0" using k by (rule dget_map_of_notin)
  have dk: "dget pg k = v" using v by (rule dget_Some)
  have e1: "dget pg' c = dget pg c - dget (map_of (kv # kvs)) c" for c
  proof -
    have "dget pg' c = dget (pg(k \<mapsto> v - n)) c - dget (map_of kvs) c" using r(2) by blast
    then show ?thesis using kv mk dk by simp
  qed
  have e2: "dget bg' c = dget bg c + dget (map_of (kv # kvs)) c" for c
  proof -
    have "dget bg' c = dget (bg(k \<mapsto> dget bg k + n)) c + dget (map_of kvs) c" using r(3) by blast
    then show ?thesis using kv mk by simp
  qed
  have e3: "dom pg' = dom pg" using r(4) v by auto
  have e4: "dom bg \<subseteq> dom bg'" using r(5) by auto
  show ?case using run e1 e2 e3 e4 by blast
qed

lemma gems_to_take_eq:
  "fold (\<lambda>c m. m(c \<mapsto> 1)) cs m0 = (\<lambda>c. if c \<in> set cs then Some (1::int) else m0 c)"
  by (induction cs arbitrary: m0) (auto simp: fun_eq_iff)

section \<open>The effect of the executors on the player and the board\<close>

lemma board_gems_update_frame [simp]:
  "board_levels (b\<lparr>board_gems := x\<rparr>) = board_levels b"
  "levels_sorted (b\<lparr>board_gems := x\<rparr>) = levels_sorted b"
  "board_cards (b\<lparr>board_gems := x\<rparr>) = board_cards b"
  "board_levels (b\<lparr>board_nobles := y\<rparr>) = board_levels b"
  "levels_sorted (b\<lparr>board_nobles := y\<rparr>) = levels_sorted b"
  "board_cards (b\<lparr>board_nobles := y\<rparr>) = board_cards b"
  by (simp_all add: board_levels_def levels_sorted_def board_cards_def)

lemma total_gems_eq: "get_total_gems p = total (gems p)"
  by (simp add: get_total_gems_colors total_def)

lemma turn_effect_refl:
  "player_ok p \<Longrightarrow> full_dict (board_gems b) \<Longrightarrow> board_levels b \<Longrightarrow> levels_sorted b
    \<Longrightarrow> turn_effect p b p b"
  by (simp add: turn_effect_def)

lemma turn_effect_gems:
  assumes "full_dict pg'" "\<forall>c. 0 \<le> dget pg' c" "total pg' \<le> 10" "full_dict bg'"
    "board_levels b" "levels_sorted b"
    "\<forall>c. dget pg' c + dget bg' c = dget (gems p) c + dget (board_gems b) c"
  shows "turn_effect p b (p\<lparr>gems := pg'\<rparr>) (b\<lparr>board_gems := bg'\<rparr>)"
  using assms by (simp add: turn_effect_def player_ok_def)

lemma check_and_discard_gems_effect:
  assumes "full_dict (gems p)" "\<forall>c. 0 \<le> dget (gems p) c" "full_dict (board_gems b)"
  shows "\<exists>pg' bg'. check_and_discard_gems rs p b = Inr (p\<lparr>gems := pg'\<rparr>, b\<lparr>board_gems := bg'\<rparr>)
      \<and> full_dict pg' \<and> (\<forall>c. 0 \<le> dget pg' c) \<and> full_dict bg'
      \<and> total pg' = min (total (gems p)) 10
      \<and> (\<forall>c. dget pg' c + dget bg' c = dget (gems p) c + dget (board_gems b) c)"
proof -
  have "\<forall>c. board_gems b c \<noteq> None" using assms(3) by (simp add: full_dict_def)
  from discard_loop_no_error[OF this, of rs "get_total_gems p" "gems p"]
  obtain pg' bg' where run: "discard_loop rs (get_total_gems p) (gems p) (board_gems b) = Inr (pg', bg')"
    by force
  note eff = discard_loop_effect[OF run]
  have r: "check_and_discard_gems rs p b = Inr (p\<lparr>gems := pg'\<rparr>, b\<lparr>board_gems := bg'\<rparr>)"
    by (simp add: check_and_discard_gems_def ebind_def run)
  have f1: "full_dict pg'" using eff assms(1) by (simp add: full_dict_dom)
  have f2: "full_dict bg'" using eff assms(3) by (simp add: full_dict_dom)
  have nn: "\<forall>c. 0 \<le> dget pg' c" using eff assms(2) by blast
  have tt: "total pg' = min (total (gems p)) 10" using eff assms(2) by (simp add: total_gems_eq)
  have cons: "\<forall>c. dget pg' c + dget bg' c = dget (gems p) c + dget (board_gems b) c"
    using eff by blast
  show ?thesis
    by (intro exI[of _ pg'] exI[of _ bg'] conjI) (rule r f1 nn f2 tt cons)+
qed

lemma player_gems_id [simp]: "p\<lparr>gems := gems p\<rparr> = p"
  by simp

lemma execute_take_different_gems_effect:
  assumes "player_ok p" "full_dict (board_gems b)" "board_levels b" "levels_sorted b"
  shows "\<exists>ok p' b'. execute_take_different_gems rs p b cs = Inr (ok, p', b')
      \<and> turn_effect p b p' b' \<and> (\<not> ok \<longrightarrow> p' = p \<and> b' = b)"
proof (cases "cs = [] \<or> length cs > 3 \<or> list_ex (\<lambda>c. dget (board_gems b) c \<le> 0) cs")
  case True
  then have "execute_take_different_gems rs p b cs = Inr (False, p, b)"
    by (auto simp: execute_take_different_gems_def)
  then show ?thesis using turn_effect_refl[OF assms] by blast
next
  case False
  let ?m = "fold (\<lambda>c m. m(c \<mapsto> 1)) cs Map.empty"
  have m: "?m = (\<lambda>c. if c \<in> set cs then Some (1::int) else None)"
    by (simp add: gems_to_take_eq)
  have pos: "\<forall>c\<in>set cs. 0 < dget (board_gems b) c"
    using False by (auto simp: list_ex_iff)
  have "\<forall>c n. ?m c = Some n \<longrightarrow> n \<le> dget (board_gems b) c"
    using pos by (auto simp: m split: if_splits)
  from take_gems_ok[OF assms(2) this] obtain bg1 where bg1:
    "take_gems b ?m = Inr (True, b\<lparr>board_gems := bg1\<rparr>)"
    "\<forall>c. dget bg1 c = dget (board_gems b) c - dget ?m c" "full_dict bg1"
    by blast
  let ?pg1 = "fold (\<lambda>(c, n) d. d(c \<mapsto> dget d c + n)) (items ?m) (gems p)"
  note add = add_gems_effect[OF distinct_items, of ?m "gems p"]
  have pg1: "\<forall>c. dget ?pg1 c = dget (gems p) c + dget ?m c"
    using add by (simp add: map_of_items)
  have mnn: "0 \<le> dget ?m c" for c by (simp add: m dget_def)
  have full1: "full_dict ?pg1"
    using add assms(1) by (auto simp: player_ok_def full_dict_dom)
  have nn1: "\<forall>c. 0 \<le> dget ?pg1 c"
  proof
    fix c
    have "0 \<le> dget (gems p) c" using assms(1) by (simp add: player_ok_def)
    then show "0 \<le> dget ?pg1 c" using pg1 mnn[of c] by simp
  qed
  let ?p1 = "p\<lparr>gems := ?pg1\<rparr>" and ?b1 = "b\<lparr>board_gems := bg1\<rparr>"
  have "\<exists>pg' bg'. check_and_discard_gems rs ?p1 ?b1 = Inr (?p1\<lparr>gems := pg'\<rparr>, ?b1\<lparr>board_gems := bg'\<rparr>)
      \<and> full_dict pg' \<and> (\<forall>c. 0 \<le> dget pg' c) \<and> full_dict bg'
      \<and> total pg' = min (total (gems ?p1)) 10
      \<and> (\<forall>c. dget pg' c + dget bg' c = dget (gems ?p1) c + dget (board_gems ?b1) c)"
    by (rule check_and_discard_gems_effect) (use full1 nn1 bg1(3) in simp_all)
  then obtain pg' bg' where d:
    "check_and_discard_gems rs ?p1 ?b1 = Inr (?p1\<lparr>gems := pg'\<rparr>, ?b1\<lparr>board_gems := bg'\<rparr>)"
    "full_dict pg'" "\<forall>c. 0 \<le> dget pg' c" "full_dict bg'"
    "total pg' = min (total (gems ?p1)) 10"
    "\<forall>c. dget pg' c + dget bg' c = dget (gems ?p1) c + dget (board_gems ?b1) c"
    by blast
  have run: "execute_take_different_gems rs p b cs = Inr (True, p\<lparr>gems := pg'\<rparr>, b\<lparr>board_gems := bg'\<rparr>)"
    using False bg1(1) d(1)
    by (simp add: execute_take_different_gems_def ebind_def Let_def)
  have cons: "\<forall>c. dget pg' c + dget bg' c = dget (gems p) c + dget (board_gems b) c"
  proof
    fix c
    have "dget pg' c + dget bg' c = dget ?pg1 c + dget bg1 c" using d(6) by simp
    then show "dget pg' c + dget bg' c = dget (gems p) c + dget (board_gems b) c"
      using pg1 bg1(2) by simp
  qed
  have "total pg' \<le> 10" using d(5) by simp
  then have "turn_effect p b (p\<lparr>gems := pg'\<rparr>) (b\<lparr>board_gems := bg'\<rparr>)"
    using d(2,3,4) assms(3,4) cons by (intro turn_effect_gems)
  then show ?thesis using run by blast
qed

lemma execute_take_same_gems_effect:
  assumes "player_ok p" "full_dict (board_gems b)" "board_levels b" "levels_sorted b"
  shows "\<exists>ok p' b'. execute_take_same_gems rs p b col = Inr (ok, p', b')
      \<and> turn_effect p b p' b' \<and> (\<not> ok \<longrightarrow> p' = p \<and> b' = b)
      \<and> (ok \<longrightarrow> total (gems p') = min (total (gems p) + 2) 10)"
proof (cases "\<exists>c. col = Some c \<and> \<not> dget (board_gems b) c < 4")
  case False
  then have "execute_take_same_gems rs p b col = Inr (False, p, b)"
    by (cases col) (auto simp: execute_take_same_gems_def)
  then show ?thesis using turn_effect_refl[OF assms] by blast
next
  case True
  then obtain k where k: "col = Some k" "4 \<le> dget (board_gems b) k" by auto
  let ?m = "[k \<mapsto> (2::int)]"
  have "\<forall>c n. ?m c = Some n \<longrightarrow> n \<le> dget (board_gems b) c"
    using k(2) by (auto split: if_splits)
  from take_gems_ok[OF assms(2) this] obtain bg1 where bg1:
    "take_gems b ?m = Inr (True, b\<lparr>board_gems := bg1\<rparr>)"
    "\<forall>c. dget bg1 c = dget (board_gems b) c - dget ?m c" "full_dict bg1"
    by blast
  let ?pg1 = "(gems p)(k \<mapsto> dget (gems p) k + 2)"
  have full1: "full_dict ?pg1" using assms(1) by (simp add: player_ok_def full_dict_upd)
  have nn0: "\<forall>c. 0 \<le> dget (gems p) c" using assms(1) by (simp add: player_ok_def)
  have nn1: "\<forall>c. 0 \<le> dget ?pg1 c"
  proof
    fix c show "0 \<le> dget ?pg1 c" using nn0 by (simp add: add_nonneg_nonneg)
  qed
  have t1: "total ?pg1 = total (gems p) + 2" by (simp add: total_upd)
  let ?p1 = "p\<lparr>gems := ?pg1\<rparr>" and ?b1 = "b\<lparr>board_gems := bg1\<rparr>"
  have "\<exists>pg' bg'. check_and_discard_gems rs ?p1 ?b1 = Inr (?p1\<lparr>gems := pg'\<rparr>, ?b1\<lparr>board_gems := bg'\<rparr>)
      \<and> full_dict pg' \<and> (\<forall>c. 0 \<le> dget pg' c) \<and> full_dict bg'
      \<and> total pg' = min (total (gems ?p1)) 10
      \<and> (\<forall>c. dget pg' c + dget bg' c = dget (gems ?p1) c + dget (board_gems ?b1) c)"
    by (rule check_and_discard_gems_effect) (use full1 nn1 bg1(3) in simp_all)
  then obtain pg' bg' where d:
    "check_and_discard_gems rs ?p1 ?b1 = Inr (?p1\<lparr>gems := pg'\<rparr>, ?b1\<lparr>board_gems := bg'\<rparr>)"
    "full_dict pg'" "\<forall>c. 0 \<le> dget pg' c" "full_dict bg'"
    "total pg' = min (total (gems ?p1)) 10"
    "\<forall>c. dget pg' c + dget bg' c = dget (gems ?p1) c + dget (board_gems ?b1) c"
    by blast
  have run: "execute_take_same_gems rs p b col = Inr (True, p\<lparr>gems := pg'\<rparr>, b\<lparr>board_gems := bg'\<rparr>)"
    using k bg1(1) d(1)
    by (simp add: execute_take_same_gems_def ebind_def Let_def)
  have cons: "\<forall>c. dget pg' c + dget bg' c = dget (gems p) c + dget (board_gems b) c"
  proof
    fix c
    have "dget pg' c + dget bg' c = dget ?pg1 c + dget bg1 c" using d(6) by simp
    then show "dget pg' c + dget bg' c = dget (gems p) c + dget (board_gems b) c"
      using bg1(2) by (simp add: dget_def)
  qed
  have tot: "total pg' = min (total (gems p) + 2) 10" using d(5) t1 by simp
  then have "total pg' \<le> 10" by simp
  then have "turn_effect p b (p\<lparr>gems := pg'\<rparr>) (b\<lparr>board_gems := bg'\<rparr>)"
    using d(2,3,4) assms(3,4) cons by (intro turn_effect_gems)
  then show ?thesis using run tot by auto
qed

lemma board_cards_deck_update:
  assumes "l \<in> {1, 2, 3}"
  shows "mset (board_cards (b\<lparr>card_decks := (card_decks b)(l \<mapsto> k)\<rparr>)) + mset (deck_of b l)
       = mset (board_cards b) + mset k"
  using assms by (auto simp: board_cards_eq)

lemma board_cards_disp_update:
  assumes "l \<in> {1, 2, 3}"
  shows "mset (board_cards (b\<lparr>displayed_cards := (displayed_cards b)(l \<mapsto> d)\<rparr>)) + mset (disp_of b l)
       = mset (board_cards b) + mset d"
  using assms by (auto simp: board_cards_eq)

lemma levels_sorted_deck_update:
  assumes "levels_sorted b" "set k \<subseteq> set (deck_of b l)"
  shows "levels_sorted (b\<lparr>card_decks := (card_decks b)(l \<mapsto> k)\<rparr>)"
  using assms unfolding levels_sorted_def by (auto split: if_splits)

lemma levels_sorted_disp_update:
  assumes "levels_sorted b" "set d \<subseteq> set (disp_of b l)"
  shows "levels_sorted (b\<lparr>displayed_cards := (displayed_cards b)(l \<mapsto> d)\<rparr>)"
  using assms unfolding levels_sorted_def by (auto split: if_splits)

lemma level_get_outside:
  assumes "board_levels b" "l \<notin> {1, 2, 3}"
  shows "level_get (card_decks b) (Some l) = []" "level_get (displayed_cards b) (Some l) = []"
proof -
  have "l \<notin> dom (card_decks b)" "l \<notin> dom (displayed_cards b)"
    using assms by (simp_all add: board_levels_def)
  then show "level_get (card_decks b) (Some l) = []" "level_get (displayed_cards b) (Some l) = []"
    by (auto simp: level_get_def split: option.splits)
qed

lemma take_reserved_source_effect:
  assumes "board_levels b" "take_reserved_source b lvl cid fd = (Some crd, b1)"
  shows "board_levels b1 \<and> board_gems b1 = board_gems b
      \<and> mset (board_cards b) = mset (board_cards b1) + {#crd#}
      \<and> (levels_sorted b \<longrightarrow> levels_sorted b1)"
proof -
  from assms(2) obtain l where l: "lvl = Some l"
    by (cases lvl) (auto simp: take_reserved_source_def)
  have lin: "l \<in> {1, 2, 3}"
  proof (rule ccontr)
    assume "l \<notin> {1, 2, 3}"
    from level_get_outside[OF assms(1) this] have "take_reserved_source b lvl cid fd = (None, b)"
      by (simp add: take_reserved_source_def l)
    then show False using assms(2) by simp
  qed
  show ?thesis
  proof (cases fd)
    case True
    let ?deck = "deck_of b l"
    have ne: "?deck \<noteq> []" and crd: "crd = last ?deck"
      and b1: "b1 = b\<lparr>card_decks := (card_decks b)(l \<mapsto> butlast ?deck)\<rparr>"
      using assms(2) True l
      by (auto simp: take_reserved_source_def deck_of_def Let_def split: if_splits)
    have "mset (butlast ?deck @ [last ?deck]) = mset (butlast ?deck) + {#crd#}"
      using crd by simp
    then have "mset ?deck = mset (butlast ?deck) + {#crd#}"
      using ne by simp
    then have m: "mset (board_cards b) = mset (board_cards b1) + {#crd#}"
      using board_cards_deck_update[OF lin, of b "butlast ?deck"] b1 by simp
    have "set (butlast ?deck) \<subseteq> set ?deck" by (auto dest: in_set_butlastD)
    then have "levels_sorted b \<longrightarrow> levels_sorted b1"
      unfolding b1 by (intro impI levels_sorted_deck_update)
    moreover have "board_levels b1" unfolding b1 using assms(1) lin by (rule board_levels_update)
    ultimately show ?thesis using m b1 by simp
  next
    case False
    let ?disp = "disp_of b l"
    from assms(2) False l obtain i where i: "find_index (\<lambda>c. Some (card_id c) = cid) ?disp = Some i"
      and crd: "crd = ?disp ! i"
      and b1: "b1 = b\<lparr>displayed_cards := (displayed_cards b)(l \<mapsto> pop_at i ?disp)\<rparr>"
      by (auto simp: take_reserved_source_def disp_of_def Let_def split: option.splits)
    have il: "i < length ?disp" using find_index_Some[OF i] by simp
    have "mset ?disp = mset (pop_at i ?disp) + {#crd#}" using mset_pop_at[OF il] crd by simp
    then have m: "mset (board_cards b) = mset (board_cards b1) + {#crd#}"
      using board_cards_disp_update[OF lin, of b "pop_at i ?disp"] b1 by simp
    have "levels_sorted b \<longrightarrow> levels_sorted b1"
      unfolding b1 by (intro impI levels_sorted_disp_update set_pop_at)
    moreover have "board_levels b1" unfolding b1 using assms(1) lin by (rule board_levels_update)
    ultimately show ?thesis using m b1 by simp
  qed
qed

lemma execute_reserve_card_effect:
  assumes "player_ok p" "full_dict (board_gems b)" "board_levels b" "levels_sorted b"
  shows "\<exists>ok p' b'. execute_reserve_card rs p b lvl cid fd = Inr (ok, p', b')
      \<and> turn_effect p b p' b' \<and> (\<not> ok \<longrightarrow> p' = p \<and> b' = b)"
proof (cases "length (reserved_cards p) \<ge> 3 \<or> fst (take_reserved_source b lvl cid fd) = None")
  case True
  then have "execute_reserve_card rs p b lvl cid fd = Inr (False, p, b)"
    by (cases "take_reserved_source b lvl cid fd") (auto simp: execute_reserve_card_def)
  then show ?thesis using turn_effect_refl[OF assms] by blast
next
  case False
  then obtain crd b1 where src: "take_reserved_source b lvl cid fd = (Some crd, b1)"
    by (cases "take_reserved_source b lvl cid fd") auto
  note s = take_reserved_source_effect[OF assms(3) src]
  have lv1: "board_levels b1" and g1: "board_gems b1 = board_gems b"
    and m1: "mset (board_cards b) = mset (board_cards b1) + {#crd#}" and ls1: "levels_sorted b1"
    using s assms(4) by simp_all
  from replenish_displayed_cards_effect[OF lv1] obtain b2 where b2:
    "replenish_displayed_cards b1 = Inr b2" "board_levels b2" "board_gems b2 = board_gems b1"
    "\<forall>l\<in>{1, 2, 3}. (disp_of b2 l, deck_of b2 l) = topped_up (disp_of b1 l) (deck_of b1 l)"
    by blast
  have m2: "mset (board_cards b2) = mset (board_cards b1)" by (rule topped_up_board(1)[OF b2(4)])
  have ls2: "levels_sorted b2" by (rule topped_up_board(2)[OF b2(4) ls1])
  have g2: "board_gems b2 = board_gems b" using b2(3) g1 by simp
  let ?p1 = "p\<lparr>reserved_cards := reserved_cards p @ [crd]\<rparr>"
  have cards_eq: "mset (board_cards b2) + mset (reserved_cards ?p1) + mset (cards ?p1)
      = mset (board_cards b) + mset (reserved_cards p) + mset (cards p)"
    using m1 m2 by simp
  have pre: "execute_reserve_card rs p b lvl cid fd =
      (if dget (board_gems b2) GOLD > 0 then
         let b3 = b2\<lparr>board_gems := (board_gems b2)(GOLD \<mapsto> dget (board_gems b2) GOLD - 1)\<rparr>;
             player2 = ?p1\<lparr>gems := (gems ?p1)(GOLD \<mapsto> dget (gems ?p1) GOLD + 1)\<rparr>
         in ebind (check_and_discard_gems rs player2 b3) (\<lambda>(p3, b4). Inr (True, p3, b4))
       else Inr (True, ?p1, b2))"
    using False src b2(1) by (simp add: execute_reserve_card_def ebind_def Let_def)
  show ?thesis
  proof (cases "dget (board_gems b2) GOLD > 0")
    case False
    have run: "execute_reserve_card rs p b lvl cid fd = Inr (True, ?p1, b2)"
      using pre False by simp
    have "player_ok ?p1" using assms(1) by (simp add: player_ok_def)
    then have "turn_effect p b ?p1 b2"
      using assms(2) b2(2) ls2 g2 cards_eq by (simp add: turn_effect_def)
    then show ?thesis using run by blast
  next
    case True
    let ?bg3 = "(board_gems b2)(GOLD \<mapsto> dget (board_gems b2) GOLD - 1)"
    let ?pg2 = "(gems p)(GOLD \<mapsto> dget (gems p) GOLD + 1)"
    let ?b3 = "b2\<lparr>board_gems := ?bg3\<rparr>"
    let ?p2 = "?p1\<lparr>gems := ?pg2\<rparr>"
    have full2: "full_dict ?pg2" using assms(1) by (simp add: player_ok_def full_dict_upd)
    have nn0: "\<forall>c. 0 \<le> dget (gems p) c" using assms(1) by (simp add: player_ok_def)
    have nn2: "\<forall>c. 0 \<le> dget ?pg2 c"
    proof
      fix c show "0 \<le> dget ?pg2 c" using nn0 by (simp add: add_nonneg_nonneg)
    qed
    have full3: "full_dict ?bg3" using assms(2) g2 by (simp add: full_dict_upd)
    have "\<exists>pg' bg'. check_and_discard_gems rs ?p2 ?b3 = Inr (?p2\<lparr>gems := pg'\<rparr>, ?b3\<lparr>board_gems := bg'\<rparr>)
      \<and> full_dict pg' \<and> (\<forall>c. 0 \<le> dget pg' c) \<and> full_dict bg'
      \<and> total pg' = min (total (gems ?p2)) 10
      \<and> (\<forall>c. dget pg' c + dget bg' c = dget (gems ?p2) c + dget (board_gems ?b3) c)"
      by (rule check_and_discard_gems_effect) (use full2 nn2 full3 in simp_all)
    then obtain pg' bg' where d:
      "check_and_discard_gems rs ?p2 ?b3 = Inr (?p2\<lparr>gems := pg'\<rparr>, ?b3\<lparr>board_gems := bg'\<rparr>)"
      "full_dict pg'" "\<forall>c. 0 \<le> dget pg' c" "full_dict bg'"
      "total pg' = min (total (gems ?p2)) 10"
      "\<forall>c. dget pg' c + dget bg' c = dget (gems ?p2) c + dget (board_gems ?b3) c"
      by blast
    let ?p' = "?p1\<lparr>gems := pg'\<rparr>" and ?b' = "b2\<lparr>board_gems := bg'\<rparr>"
    have run: "execute_reserve_card rs p b lvl cid fd = Inr (True, ?p', ?b')"
      using pre True d(1) by (simp add: ebind_def Let_def)
    have cons: "\<forall>c. dget pg' c + dget bg' c = dget (gems p) c + dget (board_gems b) c"
    proof
      fix c
      have "dget pg' c + dget bg' c = dget ?pg2 c + dget ?bg3 c" using d(6) by simp
      then show "dget pg' c + dget bg' c = dget (gems p) c + dget (board_gems b) c"
        using g2 by simp
    qed
    have "total pg' \<le> 10" using d(5) by simp
    then have "player_ok ?p'" using d(2,3) by (simp add: player_ok_def)
    then have "turn_effect p b ?p' ?b'"
      using d(4) b2(2) ls2 cons cards_eq by (simp add: turn_effect_def)
    then show ?thesis using run by blast
  qed
qed

section \<open>The invariant of the game\<close>

lemma sum_list_map_update:
  fixes f :: "'a \<Rightarrow> int"
  shows "i < length xs \<Longrightarrow> sum_list (map f (xs[i := x])) = sum_list (map f xs) - f (xs ! i) + f x"
proof (induction xs arbitrary: i)
  case Nil
  then show ?case by simp
next
  case (Cons y ys)
  then show ?case by (cases i) simp_all
qed

lemma mset_concat_map_update:
  "i < length xs \<Longrightarrow>
     mset (concat (map h (xs[i := x]))) + mset (h (xs ! i)) = mset (concat (map h xs)) + mset (h x)"
proof (induction xs arbitrary: i)
  case Nil
  then show ?case by simp
next
  case (Cons y ys)
  show ?case
  proof (cases i)
    case 0
    then show ?thesis by simp
  next
    case (Suc j)
    then have "j < length ys" using Cons.prems by simp
    from Cons.IH[OF this] show ?thesis using Suc by (simp add: ac_simps)
  qed
qed

lemma game_inv_flags [simp]:
  "game_inv (g\<lparr>history := h\<rparr>) = game_inv g"
  "game_inv (g\<lparr>game_over := go\<rparr>) = game_inv g"
  "game_inv (g\<lparr>winner := w\<rparr>) = game_inv g"
  "game_inv (g\<lparr>round_number := r\<rparr>) = game_inv g"
  by (simp_all add: game_inv_def token_supply_def all_cards_def)

lemma game_inv_put_current:
  assumes "game_inv g" "turn_effect (players g ! current_player_index g) (board g) p' b'"
  shows "game_inv (put_current g p' b')"
proof -
  let ?i = "current_player_index g" and ?ps = "players g"
  have i: "?i < length ?ps" using assms(1) by (simp add: game_inv_def)
  have te: "player_ok p'" "full_dict (board_gems b')" "board_levels b'" "levels_sorted b'"
    "\<forall>c. dget (gems p') c + dget (board_gems b') c
        = dget (gems (?ps ! ?i)) c + dget (board_gems (board g)) c"
    "mset (board_cards b') + mset (reserved_cards p') + mset (cards p')
        = mset (board_cards (board g)) + mset (reserved_cards (?ps ! ?i)) + mset (cards (?ps ! ?i))"
    using assms(2) by (simp_all add: turn_effect_def)
  have ok: "\<forall>p\<in>set (?ps[?i := p']). player_ok p"
  proof
    fix p assume "p \<in> set (?ps[?i := p'])"
    then have "p = p' \<or> p \<in> set ?ps" using set_update_subset_insert by fastforce
    then show "player_ok p" using te(1) assms(1) by (auto simp: game_inv_def)
  qed
  have sup: "token_supply (put_current g p' b') c = token_supply g c" for c
  proof -
    have "sum_list (map (\<lambda>p. dget (gems p) c) (?ps[?i := p']))
        = sum_list (map (\<lambda>p. dget (gems p) c) ?ps) - dget (gems (?ps ! ?i)) c + dget (gems p') c"
      by (rule sum_list_map_update[OF i])
    moreover have "dget (gems p') c + dget (board_gems b') c
        = dget (gems (?ps ! ?i)) c + dget (board_gems (board g)) c"
      using te(5) by blast
    ultimately show ?thesis by (simp add: token_supply_def put_current_def)
  qed
  have "mset (concat (map (\<lambda>p. reserved_cards p @ cards p) (?ps[?i := p'])))
        + mset (reserved_cards (?ps ! ?i) @ cards (?ps ! ?i))
      = mset (concat (map (\<lambda>p. reserved_cards p @ cards p) ?ps)) + mset (reserved_cards p' @ cards p')"
    by (rule mset_concat_map_update[OF i])
  then have "mset (all_cards (put_current g p' b')) + (mset (reserved_cards (?ps ! ?i)) + mset (cards (?ps ! ?i)))
      = mset (all_cards g) + (mset (reserved_cards (?ps ! ?i)) + mset (cards (?ps ! ?i)))"
    using te(6) by (simp add: all_cards_def put_current_def ac_simps)
  then have cards: "mset (all_cards (put_current g p' b')) = mset (all_cards g)"
    by simp
  show ?thesis
    using assms(1) i te(2,3,4) ok sup cards
    by (simp add: game_inv_def put_current_def)
qed

lemma catalog_no_gold_cost: "c \<in> set create_standard_cards \<Longrightarrow> GOLD \<notin> fst ` set (cost c)"
  by (auto simp: create_standard_cards_def)

lemma catalog_levels: "c \<in> set create_standard_cards \<Longrightarrow> level c \<in> {1, 2, 3}"
  by (auto simp: create_standard_cards_def)

lemma catalog_ids_distinct: "distinct (map card_id create_standard_cards)"
  by (simp add: create_standard_cards_def)

lemma catalog_distinct: "distinct create_standard_cards"
  using catalog_ids_distinct by (rule distinct_map[THEN iffD1, THEN conjunct1])

lemma determine_winner_frame [simp]:
  "players (determine_winner g) = players g" "board (determine_winner g) = board g"
  "history (determine_winner g) = history g" "num_players (determine_winner g) = num_players g"
  "current_player_index (determine_winner g) = current_player_index g"
  "last_round (determine_winner g) = last_round g"
  "last_player_index (determine_winner g) = last_player_index g"
  "game_over (determine_winner g) = game_over g"
  "round_number (determine_winner g) = round_number g"
  by (simp_all add: determine_winner_def split: prod.splits)

lemma game_inv_determine_winner [simp]: "game_inv (determine_winner g) = game_inv g"
  by (simp add: game_inv_def token_supply_def all_cards_def)

lemma check_game_end_effect:
  assumes "game_inv g"
  shows "\<exists>g'. check_game_end g = Inr g' \<and> game_inv g' \<and> players g' = players g
      \<and> board g' = board g \<and> history g' = history g
      \<and> current_player_index g' = current_player_index g"
proof -
  let ?g1 = "if list_ex (\<lambda>p. get_score p \<ge> 15) (players g) \<and> \<not> last_round g
             then g\<lparr>last_round := True, last_player_index := Some (current_player_index g)\<rparr> else g"
  have inv1: "game_inv ?g1" using assms by (simp add: game_inv_def token_supply_def all_cards_def)
  have fr: "players ?g1 = players g" "board ?g1 = board g" "history ?g1 = history g"
    "current_player_index ?g1 = current_player_index g" "num_players ?g1 = num_players g"
    by simp_all
  have n: "num_players ?g1 \<noteq> 0" using assms by (auto simp: game_inv_def)
  have unf: "check_game_end g =
      (if last_round ?g1 then
         (if num_players ?g1 = 0 then Inl ZeroDivisionError
          else case last_player_index ?g1 of
                 None \<Rightarrow> Inl AttributeError
               | Some lp \<Rightarrow>
                   if (current_player_index ?g1 + 1) mod num_players ?g1 = lp
                   then Inr (determine_winner (?g1\<lparr>game_over := True\<rparr>))
                   else Inr ?g1)
       else Inr ?g1)"
    by (simp add: check_game_end_def Let_def)
  show ?thesis
  proof (cases "last_round ?g1")
    case False
    then have "check_game_end g = Inr ?g1" using unf by simp
    then show ?thesis using inv1 fr by simp
  next
    case True
    then obtain lp where lp: "last_player_index ?g1 = Some lp"
      using inv1 by (auto simp: game_inv_def)
    show ?thesis
    proof (cases "(current_player_index ?g1 + 1) mod num_players ?g1 = lp")
      case True
      have "check_game_end g = Inr (determine_winner (?g1\<lparr>game_over := True\<rparr>))"
        using unf \<open>last_round ?g1\<close> n lp True by simp
      moreover have "game_inv (determine_winner (?g1\<lparr>game_over := True\<rparr>))" using inv1 by simp
      ultimately show ?thesis using fr by simp
    next
      case False
      have "check_game_end g = Inr ?g1"
        using unf \<open>last_round ?g1\<close> n lp False by simp
      then show ?thesis using inv1 fr by simp
    qed
  qed
qed

lemma check_nobles_visit_frame:
  assumes "check_nobles_visit p b = (p2, b2)"
  shows "gems p2 = gems p" "cards p2 = cards p" "reserved_cards p2 = reserved_cards p"
    "board_gems b2 = board_gems b" "card_decks b2 = card_decks b" "displayed_cards b2 = displayed_cards b"
  using assms
  by (auto simp: check_nobles_visit_def remove_noble_def split: list.splits option.splits)

lemma turn_effect_nobles:
  assumes "turn_effect p b p1 b1" "check_nobles_visit p1 b1 = (p2, b2)"
  shows "turn_effect p b p2 b2"
proof -
  note f = check_nobles_visit_frame[OF assms(2)]
  have "board_levels b2 = board_levels b1" "levels_sorted b2 = levels_sorted b1"
    "board_cards b2 = board_cards b1"
    using f by (simp_all add: board_levels_def levels_sorted_def board_cards_def disp_of_def deck_of_def)
  moreover have "player_ok p2 = player_ok p1" using f by (simp add: player_ok_def)
  ultimately show ?thesis using assms(1) f by (simp add: turn_effect_def)
qed

section \<open>Purchases\<close>

lemma total_mono: "(\<forall>c. dget a c \<le> dget b c) \<Longrightarrow> total a \<le> total b"
  by (simp add: total_def add_mono)

lemma purchase_payment:
  assumes "player_ok p" "full_dict (board_gems b)" "can_afford_card p crd"
    "GOLD \<notin> fst ` set (cost crd)"
  shows "\<exists>pg bg. pay_gems (items (get_actual_cost p crd)) (gems p) (board_gems b) = Inr (pg, bg)
      \<and> full_dict pg \<and> (\<forall>c. 0 \<le> dget pg c) \<and> total pg \<le> 10 \<and> full_dict bg
      \<and> (\<forall>c. dget pg c + dget bg c = dget (gems p) c + dget (board_gems b) c)"
proof -
  let ?ac = "get_actual_cost p crd"
  have nn: "\<forall>c. 0 \<le> dget (gems p) c" and full: "full_dict (gems p)" and t: "total (gems p) \<le> 10"
    using assms(1) by (simp_all add: player_ok_def)
  have keys: "\<forall>c\<in>fst ` set (items ?ac). gems p c \<noteq> None"
    using full by (simp add: full_dict_def)
  from pay_gems_effect[OF distinct_items keys, of "board_gems b"] obtain pg bg where r:
    "pay_gems (items ?ac) (gems p) (board_gems b) = Inr (pg, bg)"
    "\<forall>c. dget pg c = dget (gems p) c - dget ?ac c"
    "\<forall>c. dget bg c = dget (board_gems b) c + dget ?ac c"
    "dom pg = dom (gems p)" "dom (board_gems b) \<subseteq> dom bg"
    by (auto simp: map_of_items)
  have lo: "0 \<le> dget ?ac c" and hi: "dget ?ac c \<le> dget (gems p) c" for c
    using actual_cost_within_holdings[OF assms(3) nn assms(4)] by simp_all
  have f1: "full_dict pg" using r(4) full by (simp add: full_dict_dom)
  have f2: "full_dict bg" using r(5) assms(2) by (auto simp: full_dict_dom)
  have n1: "\<forall>c. 0 \<le> dget pg c" using r(2) hi by simp
  have "\<forall>c. dget pg c \<le> dget (gems p) c" using r(2) lo by simp
  then have "total pg \<le> total (gems p)" by (rule total_mono)
  then have t1: "total pg \<le> 10" using t by simp
  have cons: "\<forall>c. dget pg c + dget bg c = dget (gems p) c + dget (board_gems b) c"
    using r(2,3) by simp
  show ?thesis
    by (intro exI[of _ pg] exI[of _ bg] conjI) (rule r(1) f1 n1 t1 f2 cons)+
qed

lemma remove_displayed_card_cards:
  assumes "board_levels b" "lvl \<in> {1, 2, 3}"
    "find_index (\<lambda>c. card_id c = cid) (disp_of b lvl) = Some i"
  shows "\<exists>b'. remove_displayed_card b lvl cid = Inr (Some (disp_of b lvl ! i), b')
      \<and> board_gems b' = board_gems b \<and> board_levels b'
      \<and> mset (board_cards b) = mset (board_cards b') + {#disp_of b lvl ! i#}
      \<and> (levels_sorted b \<longrightarrow> levels_sorted b')"
proof -
  let ?disp = "disp_of b lvl"
  let ?b1 = "b\<lparr>displayed_cards := (displayed_cards b)(lvl \<mapsto> pop_at i ?disp)\<rparr>"
  have il: "i < length ?disp" using find_index_Some[OF assms(3)] by simp
  have lv: "board_levels ?b1" using assms(1,2) by (rule board_levels_update)
  from replenish_displayed_cards_effect[OF lv] obtain b' where b':
    "replenish_displayed_cards ?b1 = Inr b'" "board_levels b'"
    "board_gems b' = board_gems ?b1"
    "\<forall>l\<in>{1, 2, 3}. (disp_of b' l, deck_of b' l) = topped_up (disp_of ?b1 l) (deck_of ?b1 l)"
    by blast
  have r: "remove_displayed_card b lvl cid = Inr (Some (?disp ! i), b')"
    using board_levels_keys[OF assms(1,2)] assms(3) b'(1)
    by (simp add: remove_displayed_card_def ebind_def Let_def)
  have g: "board_gems b' = board_gems b" using b'(3) by simp
  have "mset ?disp = mset (pop_at i ?disp) + {#?disp ! i#}" by (rule mset_pop_at[OF il])
  then have "mset (board_cards b) = mset (board_cards ?b1) + {#?disp ! i#}"
    using board_cards_disp_update[OF assms(2), of b "pop_at i ?disp"] by simp
  then have m: "mset (board_cards b) = mset (board_cards b') + {#?disp ! i#}"
    using topped_up_board(1)[OF b'(4)] by simp
  have ls: "levels_sorted b \<longrightarrow> levels_sorted b'"
  proof
    assume "levels_sorted b"
    then have "levels_sorted ?b1" by (rule levels_sorted_disp_update) (rule set_pop_at)
    then show "levels_sorted b'" by (rule topped_up_board(2)[OF b'(4)])
  qed
  show ?thesis
    by (intro exI[of _ b'] conjI) (rule r g b'(2) m ls)+
qed

lemma finish_purchase_effect:
  assumes "game_inv g"
    "turn_effect (players g ! current_player_index g) (board g) (p1\<lparr>cards := cards p1 @ [crd]\<rparr>) b1"
  shows "\<exists>g'. finish_purchase g p1 b1 crd = Inr (True, g') \<and> game_inv g' \<and> history g' = history g"
proof -
  obtain p2 b2 where nv: "check_nobles_visit (p1\<lparr>cards := cards p1 @ [crd]\<rparr>) b1 = (p2, b2)"
    by force
  have "turn_effect (players g ! current_player_index g) (board g) p2 b2"
    by (rule turn_effect_nobles[OF assms(2) nv])
  then have inv: "game_inv (put_current g p2 b2)" by (rule game_inv_put_current[OF assms(1)])
  from check_game_end_effect[OF inv] obtain g' where g':
    "check_game_end (put_current g p2 b2) = Inr g'" "game_inv g'"
    "history g' = history (put_current g p2 b2)"
    by blast
  have "finish_purchase g p1 b1 crd = Inr (True, g')"
    using nv g'(1) by (simp add: finish_purchase_def ebind_def Let_def)
  moreover have "history g' = history g" using g'(3) by (simp add: put_current_def)
  ultimately show ?thesis using g'(2) by blast
qed

lemma game_inv_catalog:
  assumes "game_inv g" "c \<in> set (all_cards g)"
  shows "c \<in> set create_standard_cards"
proof -
  have "mset (all_cards g) = mset create_standard_cards" using assms(1) by (simp add: game_inv_def)
  then have "set (all_cards g) = set create_standard_cards" by (rule mset_eq_setD)
  then show ?thesis using assms(2) by simp
qed

lemma displayed_in_all_cards:
  "l \<in> {1, 2, 3} \<Longrightarrow> c \<in> set (disp_of (board g) l) \<Longrightarrow> c \<in> set (all_cards g)"
  by (auto simp: all_cards_def board_cards_eq)

lemma reserved_in_all_cards:
  "p \<in> set (players g) \<Longrightarrow> c \<in> set (reserved_cards p) \<Longrightarrow> c \<in> set (all_cards g)"
  by (auto simp: all_cards_def)

lemma game_inv_current:
  assumes "game_inv g"
  shows "players g ! current_player_index g \<in> set (players g)"
    "player_ok (players g ! current_player_index g)"
    "full_dict (board_gems (board g))" "board_levels (board g)" "levels_sorted (board g)"
proof -
  have "current_player_index g < length (players g)" using assms by (simp add: game_inv_def)
  then show "players g ! current_player_index g \<in> set (players g)" by simp
  then show "player_ok (players g ! current_player_index g)" using assms by (simp add: game_inv_def)
  show "full_dict (board_gems (board g))" "board_levels (board g)" "levels_sorted (board g)"
    using assms by (simp_all add: game_inv_def)
qed

lemma execute_buy_card_effect:
  assumes "game_inv g"
  shows "\<exists>ok g'. execute_buy_card g (players g ! current_player_index g) lvl cid = Inr (ok, g')
      \<and> game_inv g' \<and> history g' = history g \<and> (\<not> ok \<longrightarrow> g' = g)"
proof -
  let ?p = "players g ! current_player_index g" and ?b = "board g"
  note cur = game_inv_current[OF assms]
  have fail: ?thesis if "execute_buy_card g ?p lvl cid = Inr (False, g)"
    using that assms by blast
  show ?thesis
  proof (cases lvl)
    case None
    then show ?thesis by (intro fail) (simp add: execute_buy_card_def)
  next
    case (Some l)
    note l = this
    show ?thesis
    proof (cases cid)
      case None
      then show ?thesis using l by (intro fail) (simp add: execute_buy_card_def)
    next
      case (Some i)
      note i = this
      have unf: "execute_buy_card g ?p lvl cid =
          (case find (\<lambda>c. card_id c = i) (disp_of ?b l) of
             None \<Rightarrow> Inr (False, g)
           | Some crd \<Rightarrow>
               if \<not> can_afford_card ?p crd then Inr (False, g)
               else
                 ebind (pay_gems (items (get_actual_cost ?p crd)) (gems ?p) (board_gems ?b)) (\<lambda>(pg, bg).
                 ebind (remove_displayed_card (?b\<lparr>board_gems := bg\<rparr>) l i) (\<lambda>(_, b1).
                   finish_purchase g (?p\<lparr>gems := pg\<rparr>) b1 crd)))"
        using l i by (simp add: execute_buy_card_def disp_of_def)
      show ?thesis
      proof (cases "find_index (\<lambda>c. card_id c = i) (disp_of ?b l)")
        case None
        then show ?thesis using unf by (intro fail) (simp add: find_find_index)
      next
        case (Some k)
        let ?crd = "disp_of ?b l ! k"
        have fnd: "find (\<lambda>c. card_id c = i) (disp_of ?b l) = Some ?crd"
          using Some by (simp add: find_find_index)
        have kl: "k < length (disp_of ?b l)" using find_index_Some[OF Some] by simp
        have lin: "l \<in> {1, 2, 3}"
        proof (rule ccontr)
          assume "l \<notin> {1, 2, 3}"
          from level_get_outside(2)[OF cur(4) this] kl show False by (simp add: disp_of_def)
        qed
        show ?thesis
        proof (cases "can_afford_card ?p ?crd")
          case False
          then show ?thesis using unf fnd by (intro fail) simp
        next
          case True
          have "?crd \<in> set (all_cards g)"
            using kl by (intro displayed_in_all_cards[OF lin]) simp
          then have ng: "GOLD \<notin> fst ` set (cost ?crd)"
            using game_inv_catalog[OF assms] catalog_no_gold_cost by blast
          from purchase_payment[OF cur(2,3) True ng] obtain pg bg where pay:
            "pay_gems (items (get_actual_cost ?p ?crd)) (gems ?p) (board_gems ?b) = Inr (pg, bg)"
            "full_dict pg" "\<forall>c. 0 \<le> dget pg c" "total pg \<le> 10" "full_dict bg"
            "\<forall>c. dget pg c + dget bg c = dget (gems ?p) c + dget (board_gems ?b) c"
            by blast
          let ?bpaid = "?b\<lparr>board_gems := bg\<rparr>"
          have lv0: "board_levels ?bpaid" using cur(4) by simp
          have fi0: "find_index (\<lambda>c. card_id c = i) (disp_of ?bpaid l) = Some k" using Some by simp
          from remove_displayed_card_cards[OF lv0 lin fi0] obtain b1 where b1:
            "remove_displayed_card ?bpaid l i = Inr (Some (disp_of ?bpaid l ! k), b1)"
            "board_gems b1 = board_gems ?bpaid" "board_levels b1"
            "mset (board_cards ?bpaid) = mset (board_cards b1) + {#disp_of ?bpaid l ! k#}"
            "levels_sorted ?bpaid \<longrightarrow> levels_sorted b1"
            by blast
          have run: "execute_buy_card g ?p lvl cid = finish_purchase g (?p\<lparr>gems := pg\<rparr>) b1 ?crd"
            using unf fnd True pay(1) b1(1) by (simp add: ebind_def)
          have pok: "player_ok (?p\<lparr>gems := pg, cards := cards ?p @ [?crd]\<rparr>)"
            using pay(2,3,4) by (simp add: player_ok_def)
          have g1: "board_gems b1 = bg" using b1(2) by simp
          have cons: "\<forall>c. dget pg c + dget (board_gems b1) c
              = dget (gems ?p) c + dget (board_gems ?b) c"
            unfolding g1 by (rule pay(6))
          have fb: "full_dict (board_gems b1)" unfolding g1 by (rule pay(5))
          have ls1: "levels_sorted b1" using b1(5) cur(5) by simp
          have mc: "mset (board_cards ?b) = mset (board_cards b1) + {#?crd#}" using b1(4) by simp
          have te: "turn_effect ?p ?b ((?p\<lparr>gems := pg\<rparr>)\<lparr>cards := cards (?p\<lparr>gems := pg\<rparr>) @ [?crd]\<rparr>) b1"
            unfolding turn_effect_def
          proof (intro conjI)
            show "player_ok ((?p\<lparr>gems := pg\<rparr>)\<lparr>cards := cards (?p\<lparr>gems := pg\<rparr>) @ [?crd]\<rparr>)"
              using pok by simp
            show "full_dict (board_gems b1)" by (rule fb)
            show "board_levels b1" by (rule b1(3))
            show "levels_sorted b1" by (rule ls1)
            show "\<forall>c. dget (gems ((?p\<lparr>gems := pg\<rparr>)\<lparr>cards := cards (?p\<lparr>gems := pg\<rparr>) @ [?crd]\<rparr>)) c
                  + dget (board_gems b1) c = dget (gems ?p) c + dget (board_gems ?b) c"
              using cons by simp
            show "mset (board_cards b1)
                  + mset (reserved_cards ((?p\<lparr>gems := pg\<rparr>)\<lparr>cards := cards (?p\<lparr>gems := pg\<rparr>) @ [?crd]\<rparr>))
                  + mset (cards ((?p\<lparr>gems := pg\<rparr>)\<lparr>cards := cards (?p\<lparr>gems := pg\<rparr>) @ [?crd]\<rparr>))
                = mset (board_cards ?b) + mset (reserved_cards ?p) + mset (cards ?p)"
              using mc by simp
          qed
          from finish_purchase_effect[OF assms te] show ?thesis using run by auto
        qed
      qed
    qed
  qed
qed

lemma execute_buy_reserved_card_effect:
  assumes "game_inv g"
  shows "\<exists>ok g'. execute_buy_reserved_card g (players g ! current_player_index g) cid = Inr (ok, g')
      \<and> game_inv g' \<and> history g' = history g \<and> (\<not> ok \<longrightarrow> g' = g)"
proof -
  let ?p = "players g ! current_player_index g" and ?b = "board g"
  note cur = game_inv_current[OF assms]
  have fail: ?thesis if "execute_buy_reserved_card g ?p cid = Inr (False, g)"
    using that assms by blast
  show ?thesis
  proof (cases "find_index (\<lambda>c. Some (card_id c) = cid) (reserved_cards ?p)")
    case None
    then show ?thesis by (intro fail) (simp add: execute_buy_reserved_card_def)
  next
    case (Some k)
    let ?crd = "reserved_cards ?p ! k"
    have kl: "k < length (reserved_cards ?p)" using find_index_Some[OF Some] by simp
    show ?thesis
    proof (cases "can_afford_card ?p ?crd")
      case False
      then show ?thesis using Some by (intro fail) (simp add: execute_buy_reserved_card_def Let_def)
    next
      case True
      have "?crd \<in> set (all_cards g)"
        using kl by (intro reserved_in_all_cards[OF cur(1)]) simp
      then have ng: "GOLD \<notin> fst ` set (cost ?crd)"
        using game_inv_catalog[OF assms] catalog_no_gold_cost by blast
      from purchase_payment[OF cur(2,3) True ng] obtain pg bg where pay:
        "pay_gems (items (get_actual_cost ?p ?crd)) (gems ?p) (board_gems ?b) = Inr (pg, bg)"
        "full_dict pg" "\<forall>c. 0 \<le> dget pg c" "total pg \<le> 10" "full_dict bg"
        "\<forall>c. dget pg c + dget bg c = dget (gems ?p) c + dget (board_gems ?b) c"
        by blast
      let ?p1 = "?p\<lparr>gems := pg, reserved_cards := pop_at k (reserved_cards ?p)\<rparr>"
      let ?b1 = "?b\<lparr>board_gems := bg\<rparr>"
      have run: "execute_buy_reserved_card g ?p cid = finish_purchase g ?p1 ?b1 ?crd"
        using Some True pay(1) by (simp add: execute_buy_reserved_card_def ebind_def Let_def)
      have pok: "player_ok (?p1\<lparr>cards := cards ?p1 @ [?crd]\<rparr>)"
        using pay(2,3,4) by (simp add: player_ok_def)
      have m: "mset (reserved_cards ?p) = mset (pop_at k (reserved_cards ?p)) + {#?crd#}"
        by (rule mset_pop_at[OF kl])
      have te: "turn_effect ?p ?b (?p1\<lparr>cards := cards ?p1 @ [?crd]\<rparr>) ?b1"
        unfolding turn_effect_def
      proof (intro conjI)
        show "player_ok (?p1\<lparr>cards := cards ?p1 @ [?crd]\<rparr>)" by (rule pok)
        show "full_dict (board_gems ?b1)" using pay(5) by simp
        show "board_levels ?b1" using cur(4) by simp
        show "levels_sorted ?b1" using cur(5) by simp
        show "\<forall>c. dget (gems (?p1\<lparr>cards := cards ?p1 @ [?crd]\<rparr>)) c + dget (board_gems ?b1) c
              = dget (gems ?p) c + dget (board_gems ?b) c"
          using pay(6) by simp
        show "mset (board_cards ?b1) + mset (reserved_cards (?p1\<lparr>cards := cards ?p1 @ [?crd]\<rparr>))
              + mset (cards (?p1\<lparr>cards := cards ?p1 @ [?crd]\<rparr>))
            = mset (board_cards ?b) + mset (reserved_cards ?p) + mset (cards ?p)"
          using m by simp
      qed
      from finish_purchase_effect[OF assms te] show ?thesis using run by auto
    qed
  qed
qed

section \<open>Every call of the engine keeps the invariant\<close>

lemma put_current_same:
  "put_current g (players g ! current_player_index g) (board g) = g"
  by (simp add: put_current_def)

lemma put_current_frame [simp]:
  "history (put_current g p b) = history g"
  "current_player_index (put_current g p b) = current_player_index g"
  "num_players (put_current g p b) = num_players g"
  "board (put_current g p b) = b"
  "length (players (put_current g p b)) = length (players g)"
  by (simp_all add: put_current_def)

lemma execute_action_effect:
  assumes "game_inv g"
  shows "\<exists>ok g'. execute_action rs g action = Inr (ok, g') \<and> game_inv g'
      \<and> history g' = history g @
           [\<lparr>h_round = round_number g,
             h_player = player_id (players g ! current_player_index g), h_action = action\<rparr>]
      \<and> (\<not> ok \<longrightarrow> board g' = board g \<and> players g' = players g)"
proof -
  let ?p = "players g ! current_player_index g"
  let ?e = "\<lparr>h_round = round_number g, h_player = player_id ?p, h_action = action\<rparr>"
  let ?g1 = "g\<lparr>history := history g @ [?e]\<rparr>"
  have inv1: "game_inv ?g1" using assms by simp
  have i: "current_player_index g < length (players g)" using assms by (simp add: game_inv_def)
  have cp: "get_current_player g = Inr ?p" using i by (simp add: get_current_player_def)
  have fr1: "players ?g1 = players g" "board ?g1 = board g"
    "current_player_index ?g1 = current_player_index g" "history ?g1 = history g @ [?e]"
    by simp_all
  note cur = game_inv_current[OF inv1, unfolded fr1]
  have pb: ?thesis
    if "\<exists>ok p' b'. ex = Inr (ok, p', b') \<and> turn_effect ?p (board g) p' b' \<and> (\<not> ok \<longrightarrow> p' = ?p \<and> b' = board g)"
      and "execute_action rs g action = ebind ex (\<lambda>(ok, p, b). Inr (ok, put_current ?g1 p b))"
    for ex
  proof -
    from that(1) obtain ok p' b' where r: "ex = Inr (ok, p', b')" "turn_effect ?p (board g) p' b'"
      "\<not> ok \<longrightarrow> p' = ?p \<and> b' = board g"
      by blast
    have run: "execute_action rs g action = Inr (ok, put_current ?g1 p' b')"
      using that(2) r(1) by (simp add: ebind_def)
    have "turn_effect (players ?g1 ! current_player_index ?g1) (board ?g1) p' b'"
      using r(2) by simp
    then have inv: "game_inv (put_current ?g1 p' b')" by (rule game_inv_put_current[OF inv1])
    have h: "history (put_current ?g1 p' b') = history g @ [?e]" by simp
    have same: "\<not> ok \<longrightarrow> board (put_current ?g1 p' b') = board g
        \<and> players (put_current ?g1 p' b') = players g"
      using r(3) by (auto simp: put_current_def)
    show ?thesis
      by (intro exI[of _ ok] exI[of _ "put_current ?g1 p' b'"] conjI) (rule run inv h same)+
  qed
  have buy: ?thesis
    if "\<exists>ok g'. ex = Inr (ok, g') \<and> game_inv g' \<and> history g' = history ?g1 \<and> (\<not> ok \<longrightarrow> g' = ?g1)"
      and "execute_action rs g action = ex"
    for ex
  proof -
    from that(1) obtain ok g' where r: "ex = Inr (ok, g')" "game_inv g'" "history g' = history ?g1"
      "\<not> ok \<longrightarrow> g' = ?g1"
      by blast
    have run: "execute_action rs g action = Inr (ok, g')" using that(2) r(1) by simp
    have h: "history g' = history g @ [?e]" using r(3) by simp
    have same: "\<not> ok \<longrightarrow> board g' = board g \<and> players g' = players g" using r(4) by auto
    show ?thesis
      by (intro exI[of _ ok] exI[of _ g'] conjI) (rule run r(2) h same)+
  qed
  show ?thesis
  proof (cases action)
    case (TAKE_DIFFERENT_GEMS cs)
    show ?thesis
      by (rule pb[OF execute_take_different_gems_effect[OF cur(2,3,4,5), of rs cs]])
        (simp add: execute_action_def cp ebind_def TAKE_DIFFERENT_GEMS Let_def)
  next
    case (TAKE_SAME_GEMS col)
    have "\<exists>ok p' b'. execute_take_same_gems rs ?p (board g) col = Inr (ok, p', b')
        \<and> turn_effect ?p (board g) p' b' \<and> (\<not> ok \<longrightarrow> p' = ?p \<and> b' = board g)"
      using execute_take_same_gems_effect[OF cur(2,3,4,5), of rs col] by blast
    then show ?thesis
      by (rule pb) (simp add: execute_action_def cp ebind_def TAKE_SAME_GEMS Let_def)
  next
    case (RESERVE_CARD lvl cid fd)
    show ?thesis
      by (rule pb[OF execute_reserve_card_effect[OF cur(2,3,4,5), of rs lvl cid fd]])
        (simp add: execute_action_def cp ebind_def RESERVE_CARD Let_def)
  next
    case (BUY_CARD lvl cid)
    have "\<exists>ok g'. execute_buy_card ?g1 ?p lvl cid = Inr (ok, g') \<and> game_inv g'
        \<and> history g' = history ?g1 \<and> (\<not> ok \<longrightarrow> g' = ?g1)"
      using execute_buy_card_effect[OF inv1, of lvl cid] by simp
    then show ?thesis
      by (rule buy) (simp add: execute_action_def cp ebind_def BUY_CARD Let_def)
  next
    case (BUY_RESERVED_CARD cid)
    have "\<exists>ok g'. execute_buy_reserved_card ?g1 ?p cid = Inr (ok, g') \<and> game_inv g'
        \<and> history g' = history ?g1 \<and> (\<not> ok \<longrightarrow> g' = ?g1)"
      using execute_buy_reserved_card_effect[OF inv1, of cid] by simp
    then show ?thesis
      by (rule buy) (simp add: execute_action_def cp ebind_def BUY_RESERVED_CARD Let_def)
  qed
qed

lemma next_player_effect:
  assumes "game_inv g"
  shows "\<exists>g'. next_player g = Inr g' \<and> game_inv g'"
proof -
  have n: "num_players g = length (players g)" and i: "current_player_index g < length (players g)"
    using assms by (simp_all add: game_inv_def)
  then have pos: "0 < num_players g" by (cases "players g") simp_all
  let ?i = "(current_player_index g + 1) mod num_players g"
  let ?g' = "g\<lparr>current_player_index := ?i,
                round_number := (if ?i = 0 then round_number g + 1 else round_number g)\<rparr>"
  have "next_player g = Inr ?g'" using pos by (simp add: next_player_def Let_def)
  moreover have "?i < length (players g)" using pos n by simp
  then have "game_inv ?g'" using assms by (simp add: game_inv_def token_supply_def all_cards_def)
  ultimately show ?thesis by blast
qed

section \<open>A new game satisfies the invariant\<close>

lemma deal_mset: "deal n disp deck = (d', k') \<Longrightarrow> mset d' + mset k' = mset disp + mset deck"
proof (induction n arbitrary: disp deck)
  case 0
  then show ?case by simp
next
  case (Suc n)
  show ?case
  proof (cases "deck = []")
    case True
    then show ?thesis using Suc by simp
  next
    case False
    then have "deal n (disp @ [last deck]) (butlast deck) = (d', k')" using Suc.prems by simp
    from Suc.IH[OF this] have "mset d' + mset k' = mset disp + mset (butlast deck @ [last deck])"
      by simp
    then show ?thesis using False by simp
  qed
qed

lemma initialize_gems_full: "full_dict (initialize_gems n)"
proof -
  have "initialize_gems n c \<noteq> None" for c
    by (cases c) (simp_all add: initialize_gems_def basic_colors_def Let_def)
  then show ?thesis by (simp add: full_dict_def)
qed

lemma new_player_ok: "player_ok (new_player pid nm)"
proof -
  have "dget (gems (new_player pid nm)) c = 0" for c
    by (cases c) (simp_all add: new_player_def)
  moreover have "gems (new_player pid nm) c \<noteq> None" for c
    by (cases c) (simp_all add: new_player_def)
  ultimately show ?thesis by (simp add: player_ok_def full_dict_def total_def)
qed

lemma new_players_tokens:
  "sum_list (map (\<lambda>p. dget (gems p) c) (map (\<lambda>(pid, nm). new_player pid nm) ids)) = 0"
proof -
  have z: "dget (gems (new_player pid nm)) c = 0" for pid nm
    by (cases c) (simp_all add: new_player_def)
  show ?thesis by (induction ids) (auto simp: z)
qed

lemma new_players_cards:
  "concat (map (\<lambda>p. reserved_cards p @ cards p) (map (\<lambda>(pid, nm). new_player pid nm) ids)) = []"
  by (induction ids) (auto simp: new_player_def)

lemma mset_by_level:
  assumes "\<forall>x\<in>set xs. level x \<in> {1, 2, 3}"
  shows "mset (filter (\<lambda>c. level c = 1) xs) + mset (filter (\<lambda>c. level c = 2) xs)
       + mset (filter (\<lambda>c. level c = 3) xs) = mset xs"
  using assms by (induction xs) auto

lemma Board_init_effect:
  assumes "mset deck1 = mset (filter (\<lambda>c. level c = 1) create_standard_cards)"
    "mset deck2 = mset (filter (\<lambda>c. level c = 2) create_standard_cards)"
    "mset deck3 = mset (filter (\<lambda>c. level c = 3) create_standard_cards)"
  shows "board_levels (Board_init n deck1 deck2 deck3 ns)"
    "levels_sorted (Board_init n deck1 deck2 deck3 ns)"
    "mset (board_cards (Board_init n deck1 deck2 deck3 ns)) = mset create_standard_cards"
    "board_gems (Board_init n deck1 deck2 deck3 ns) = initialize_gems n"
proof -
  let ?b = "Board_init n deck1 deck2 deck3 ns"
  obtain disp1 d1 where r1: "deal 4 [] deck1 = (disp1, d1)" by force
  obtain disp2 d2 where r2: "deal 4 [] deck2 = (disp2, d2)" by force
  obtain disp3 d3 where r3: "deal 4 [] deck3 = (disp3, d3)" by force
  have b: "?b = \<lparr>board_gems = initialize_gems n,
          card_decks = [1 \<mapsto> d1, 2 \<mapsto> d2, 3 \<mapsto> d3],
          displayed_cards = [1 \<mapsto> disp1, 2 \<mapsto> disp2, 3 \<mapsto> disp3],
          board_nobles = take (n + 1) ns\<rparr>"
    by (simp add: Board_init_def r1 r2 r3)
  have lv: "deck_of ?b 1 = d1" "deck_of ?b 2 = d2" "deck_of ?b 3 = d3"
    "disp_of ?b 1 = disp1" "disp_of ?b 2 = disp2" "disp_of ?b 3 = disp3"
    by (simp_all add: b deck_of_def disp_of_def level_get_def)
  note m1 = deal_mset[OF r1] and m2 = deal_mset[OF r2] and m3 = deal_mset[OF r3]
  show "board_levels ?b" by (auto simp: b board_levels_def)
  show "board_gems ?b = initialize_gems n" by (simp add: b)
  have s1: "set d1 \<union> set disp1 = set deck1"
    using m1 by (metis add.commute append_Nil mset_append set_append set_mset_mset)
  have s2: "set d2 \<union> set disp2 = set deck2"
    using m2 by (metis add.commute append_Nil mset_append set_append set_mset_mset)
  have s3: "set d3 \<union> set disp3 = set deck3"
    using m3 by (metis add.commute append_Nil mset_append set_append set_mset_mset)
  have l1: "\<forall>c\<in>set deck1. level c = 1"
    using mset_eq_setD[OF assms(1)] by auto
  have l2: "\<forall>c\<in>set deck2. level c = 2"
    using mset_eq_setD[OF assms(2)] by auto
  have l3: "\<forall>c\<in>set deck3. level c = 3"
    using mset_eq_setD[OF assms(3)] by auto
  show "levels_sorted ?b"
    unfolding levels_sorted_def using lv s1 s2 s3 l1 l2 l3 by auto
  have e: "mset d1 + mset disp1 = mset deck1" "mset d2 + mset disp2 = mset deck2"
    "mset d3 + mset disp3 = mset deck3"
    using m1 m2 m3 by (simp_all add: add.commute)
  have "mset (board_cards ?b)
      = (mset d1 + mset disp1) + (mset d2 + mset disp2) + (mset d3 + mset disp3)"
    by (simp add: board_cards_eq lv)
  also have "\<dots> = mset deck1 + mset deck2 + mset deck3"
    unfolding e by (rule refl)
  also have "\<dots> = mset create_standard_cards"
    unfolding assms using catalog_levels by (intro mset_by_level) blast
  finally show "mset (board_cards ?b) = mset create_standard_cards" .
qed

lemma game_inv_init:
  assumes "ids \<noteq> []"
    "mset deck1 = mset (filter (\<lambda>c. level c = 1) create_standard_cards)"
    "mset deck2 = mset (filter (\<lambda>c. level c = 2) create_standard_cards)"
    "mset deck3 = mset (filter (\<lambda>c. level c = 3) create_standard_cards)"
  shows "game_inv (Game_init (map (\<lambda>(pid, nm). new_player pid nm) ids) deck1 deck2 deck3 ns)"
proof -
  let ?ps = "map (\<lambda>(pid, nm). new_player pid nm) ids"
  note b = Board_init_effect[OF assms(2,3,4), of "length ?ps" ns]
  have ok: "\<forall>p\<in>set ?ps. player_ok p" by (auto simp: new_player_ok)
  let ?g = "Game_init ?ps deck1 deck2 deck3 ns"
  have fr: "players ?g = ?ps" "board ?g = Board_init (length ?ps) deck1 deck2 deck3 ns"
    "num_players ?g = length ?ps" "current_player_index ?g = 0" "last_round ?g = False"
    by (simp_all add: Game_init_def)
  have ts: "\<forall>c. token_supply ?g c = dget (initialize_gems (length (players ?g))) c"
    unfolding token_supply_def fr b(4) using new_players_tokens[of _ ids] by simp
  have ac: "mset (all_cards ?g) = mset create_standard_cards"
    unfolding all_cards_def fr using b(3) new_players_cards[of ids] by simp
  have fd: "full_dict (board_gems (board ?g))" unfolding fr b(4) by (rule initialize_gems_full)
  have i0: "current_player_index ?g < length (players ?g)" unfolding fr using assms(1) by simp
  show ?thesis
    unfolding game_inv_def
  proof (intro conjI)
    show "num_players ?g = length (players ?g)" unfolding fr by simp
    show "current_player_index ?g < length (players ?g)" by (rule i0)
    show "last_round ?g \<longrightarrow> last_player_index ?g \<noteq> None" unfolding fr by simp
    show "full_dict (board_gems (board ?g))" by (rule fd)
    show "board_levels (board ?g)" unfolding fr by (rule b(1))
    show "levels_sorted (board ?g)" unfolding fr by (rule b(2))
    show "\<forall>p\<in>set (players ?g). player_ok p" unfolding fr by (rule ok)
    show "\<forall>c. token_supply ?g c = dget (initialize_gems (length (players ?g))) c" by (rule ts)
    show "mset (all_cards ?g) = mset create_standard_cards" by (rule ac)
  qed
qed

lemma reachable_game_inv: "reachable g \<Longrightarrow> game_inv g"
proof (induction rule: reachable.induct)
  case (reachable_init ids deck1 deck2 deck3 all_nobles)
  then show ?case by (intro game_inv_init)
next
  case (reachable_execute g rs action ok g')
  from execute_action_effect[OF reachable_execute.IH, of rs action] reachable_execute.hyps(2)
  show ?case by auto
next
  case (reachable_next g g')
  from next_player_effect[OF reachable_next.IH] reachable_next.hyps(2)
  show ?case by auto
qed

section \<open>Example games are reachable\<close>

lemma reachable_new_game: "reachable new_game"
  unfolding new_game_def by (rule reachable_init) simp_all

lemma reachable_after_actions: "reachable g \<Longrightarrow> reachable (after_actions g as)"
proof (induction as arbitrary: g)
  case Nil
  then show ?case by simp
next
  case (Cons a as)
  show ?case
  proof (cases "execute_action [] g a")
    case (Inl e)
    then show ?thesis using Cons by simp
  next
    case (Inr r)
    obtain ok g' where r: "r = (ok, g')" by (cases r)
    then have "reachable g'" using Cons.prems Inr by (intro reachable_execute[of g "[]" a ok g']) simp_all
    then show ?thesis using Cons.IH Inr r by simp
  qed
qed

lemma reachable_nine_tokens_game: "reachable nine_tokens_game"
  unfolding nine_tokens_game_def by (rule reachable_after_actions[OF reachable_new_game])

lemma count_list_concat_map:
  "count_list (concat (map h xs)) c = sum_list (map (\<lambda>x. count_list (h x) c) xs)"
  by (induction xs) simp_all

lemma game_inv_card_locations:
  assumes "game_inv g" "c \<in> set create_standard_cards"
  shows "card_locations g c = 1"
proof -
  let ?b = "board g"
  have "count (mset (all_cards g)) c = count (mset create_standard_cards) c"
    using assms(1) by (simp add: game_inv_def)
  moreover have "count (mset create_standard_cards) c = 1"
    using assms(2) catalog_distinct by (simp add: distinct_count_atmost_1)
  ultimately have one: "count_list (all_cards g) c = 1" by (simp add: count_mset)
  have sorted: "levels_sorted ?b" using assms(1) by (simp add: game_inv_def)
  have other: "count_list (deck_of ?b l) c = 0 \<and> count_list (disp_of ?b l) c = 0"
    if "l \<in> {1, 2, 3}" "l \<noteq> level c" for l
  proof -
    have "c \<notin> set (deck_of ?b l @ disp_of ?b l)"
      using sorted that by (auto simp: levels_sorted_def)
    then show ?thesis by (simp add: count_list_0_iff)
  qed
  have lc: "level c \<in> {1, 2, 3}" by (rule catalog_levels[OF assms(2)])
  have bc: "count_list (board_cards ?b) c
      = count_list (deck_of ?b (level c)) c + count_list (disp_of ?b (level c)) c"
  proof -
    have "count_list (board_cards ?b) c
        = (count_list (deck_of ?b 1) c + count_list (disp_of ?b 1) c)
        + (count_list (deck_of ?b 2) c + count_list (disp_of ?b 2) c)
        + (count_list (deck_of ?b 3) c + count_list (disp_of ?b 3) c)"
      by (simp add: board_cards_eq)
    then show ?thesis using lc other[of 1] other[of 2] other[of 3] by auto
  qed
  have pc: "count_list (concat (map (\<lambda>p. reserved_cards p @ cards p) (players g))) c
      = sum_list (map (\<lambda>p. count_list (reserved_cards p) c) (players g))
      + sum_list (map (\<lambda>p. count_list (cards p) c) (players g))"
    by (simp add: count_list_concat_map sum_list_addf)
  have "card_locations g c = count_list (all_cards g) c"
    unfolding card_locations_def all_cards_def using bc pc by simp
  then show ?thesis using one by simp
qed

lemma take_same_nine_to_ten:
  assumes "game_inv g" "execute_action rs g (TAKE_SAME_GEMS col) = Inr (True, g')"
  shows "current_player_index g' = current_player_index g
     \<and> get_total_gems (players g' ! current_player_index g)
         = min (get_total_gems (players g ! current_player_index g) + 2) 10"
proof -
  let ?p = "players g ! current_player_index g"
  let ?g1 = "g\<lparr>history := history g @
      [\<lparr>h_round = round_number g, h_player = player_id ?p, h_action = TAKE_SAME_GEMS col\<rparr>]\<rparr>"
  have i: "current_player_index g < length (players g)" using assms(1) by (simp add: game_inv_def)
  have cp: "get_current_player g = Inr ?p" using i by (simp add: get_current_player_def)
  note cur = game_inv_current[OF assms(1)]
  from execute_take_same_gems_effect[OF cur(2,3,4,5), of rs col] obtain ok p' b' where r:
    "execute_take_same_gems rs ?p (board g) col = Inr (ok, p', b')"
    "ok \<longrightarrow> total (gems p') = min (total (gems ?p) + 2) 10"
    by blast
  have "execute_action rs g (TAKE_SAME_GEMS col) = Inr (ok, put_current ?g1 p' b')"
    using r(1) by (simp add: execute_action_def cp ebind_def Let_def)
  then have ok: "ok" and g': "g' = put_current ?g1 p' b'" using assms(2) by simp_all
  have "players g' ! current_player_index g = p'" using g' i by (simp add: put_current_def)
  then show ?thesis using r(2) ok g' by (simp add: total_gems_eq)
qed

section \<open>Facts about the generators and the example boards\<close>

lemma combinations_nonempty: "k \<le> length xs \<Longrightarrow> combinations xs k \<noteq> []"
proof (induction xs arbitrary: k)
  case Nil
  then show ?case by simp
next
  case (Cons x xs)
  show ?case
  proof (cases k)
    case 0
    then show ?thesis by simp
  next
    case (Suc j)
    then have "combinations xs j \<noteq> []" using Cons by simp
    then show ?thesis using Suc by simp
  qed
qed

text \<open>The generator of take-different actions never returns the empty list.\<close>

lemma get_different_gems_actions_nonempty: "get_different_gems_actions g \<noteq> []"
proof -
  let ?av = "filter (\<lambda>c. dget (board_gems (board g)) c > 0) basic_colors"
  show ?thesis
  proof (cases "length ?av \<le> 3")
    case True
    then show ?thesis by (simp add: get_different_gems_actions_def Let_def)
  next
    case False
    then have "combinations ?av 3 \<noteq> []" by (intro combinations_nonempty) simp
    then show ?thesis using False by (simp add: get_different_gems_actions_def Let_def)
  qed
qed

lemma get_valid_actions_never_empty: "get_valid_actions g \<noteq> Inr []"
  using get_different_gems_actions_nonempty[of g]
  by (auto simp: get_valid_actions_def ebind_def split: sum.splits)

lemma late_board_levels: "board_levels late_board"
  by (auto simp: board_levels_def late_board_def)

section \<open>The example games satisfy the invariant\<close>

lemma full_dict_six:
  "full_dict [WHITE \<mapsto> a, BLUE \<mapsto> b, GREEN \<mapsto> c, RED \<mapsto> d, BLACK \<mapsto> e, GOLD \<mapsto> f]"
proof -
  have "[WHITE \<mapsto> a, BLUE \<mapsto> b, GREEN \<mapsto> c, RED \<mapsto> d, BLACK \<mapsto> e, GOLD \<mapsto> f] k \<noteq> None" for k
    by (cases k) simp_all
  then show ?thesis by (simp add: full_dict_def)
qed

lemma player_ok_six:
  assumes "gems p = [WHITE \<mapsto> a, BLUE \<mapsto> b, GREEN \<mapsto> c, RED \<mapsto> d, BLACK \<mapsto> e, GOLD \<mapsto> f]"
    "0 \<le> a" "0 \<le> b" "0 \<le> c" "0 \<le> d" "0 \<le> e" "0 \<le> f" "a + b + c + d + e + f \<le> 10"
  shows "player_ok p"
proof -
  have "0 \<le> dget (gems p) k" for k using assms by (cases k) simp_all
  moreover have "total (gems p) \<le> 10" using assms by (simp add: total_def)
  ultimately show ?thesis using full_dict_six assms(1) by (simp add: player_ok_def)
qed

lemma game_inv_late_game: "game_inv late_game"
proof -
  have fr: "players late_game = [late_alice, late_bob]" "board late_game = late_board"
    "num_players late_game = 2" "current_player_index late_game = 0" "last_round late_game = False"
    by (simp_all add: late_game_def)
  have "list_all (\<lambda>c. token_supply late_game c
      = dget (initialize_gems (length (players late_game))) c) all_colors"
    by code_simp
  then have ts: "token_supply late_game c = dget (initialize_gems (length (players late_game))) c" for c
    by (simp add: list_all_iff all_colors_set)
  have ac: "mset (all_cards late_game) = mset create_standard_cards" by code_simp
  have ls: "levels_sorted late_board" by code_simp
  have pa: "player_ok late_alice"
    by (rule player_ok_six[of _ 0 3 0 0 0 0]) (simp_all add: late_alice_def)
  have pb: "player_ok late_bob"
    by (rule player_ok_six[of _ 0 0 3 0 0 0]) (simp_all add: late_bob_def)
  have fd: "full_dict (board_gems late_board)" unfolding late_board_def by (simp add: full_dict_six)
  show ?thesis
    unfolding game_inv_def
  proof (intro conjI)
    show "num_players late_game = length (players late_game)" unfolding fr by simp
    show "current_player_index late_game < length (players late_game)" unfolding fr by simp
    show "last_round late_game \<longrightarrow> last_player_index late_game \<noteq> None" unfolding fr by simp
    show "full_dict (board_gems (board late_game))" unfolding fr by (rule fd)
    show "board_levels (board late_game)" unfolding fr by (rule late_board_levels)
    show "levels_sorted (board late_game)" unfolding fr by (rule ls)
    show "\<forall>p\<in>set (players late_game). player_ok p" unfolding fr using pa pb by simp
    show "\<forall>c. token_supply late_game c = dget (initialize_gems (length (players late_game))) c"
      using ts by blast
    show "mset (all_cards late_game) = mset create_standard_cards" by (rule ac)
  qed
qed

lemma stuck_board_levels: "board_levels stuck_board"
  by (auto simp: board_levels_def stuck_board_def)

lemma game_inv_stuck_game: "game_inv stuck_game"
proof -
  have fr: "players stuck_game = [stuck_alice, stuck_bob]" "board stuck_game = stuck_board"
    "num_players stuck_game = 2" "current_player_index stuck_game = 0" "last_round stuck_game = False"
    by (simp_all add: stuck_game_def)
  have "list_all (\<lambda>c. token_supply stuck_game c
      = dget (initialize_gems (length (players stuck_game))) c) all_colors"
    by code_simp
  then have ts: "token_supply stuck_game c = dget (initialize_gems (length (players stuck_game))) c" for c
    by (simp add: list_all_iff all_colors_set)
  have ac: "mset (all_cards stuck_game) = mset create_standard_cards" by code_simp
  have ls: "levels_sorted stuck_board" by code_simp
  have pa: "player_ok stuck_alice"
    by (rule player_ok_six[of _ 4 4 2 0 0 0]) (simp_all add: stuck_alice_def)
  have pb: "player_ok stuck_bob"
    by (rule player_ok_six[of _ 0 0 2 4 4 0]) (simp_all add: stuck_bob_def)
  have fd: "full_dict (board_gems stuck_board)" unfolding stuck_board_def by (simp add: full_dict_six)
  show ?thesis
    unfolding game_inv_def
  proof (intro conjI)
    show "num_players stuck_game = length (players stuck_game)" unfolding fr by simp
    show "current_player_index stuck_game < length (players stuck_game)" unfolding fr by simp
    show "last_round stuck_game \<longrightarrow> last_player_index stuck_game \<noteq> None" unfolding fr by simp
    show "full_dict (board_gems (board stuck_game))" unfolding fr by (rule fd)
    show "board_levels (board stuck_game)" unfolding fr by (rule stuck_board_levels)
    show "levels_sorted (board stuck_game)" unfolding fr by (rule ls)
    show "\<forall>p\<in>set (players stuck_game). player_ok p" unfolding fr using pa pb by simp
    show "\<forall>c. token_supply stuck_game c = dget (initialize_gems (length (players stuck_game))) c"
      using ts by blast
    show "mset (all_cards stuck_game) = mset create_standard_cards" by (rule ac)
  qed
qed

section \<open>What the engine does not check\<close>

text \<open>
  Taking tokens and reserving never touch the flags of the end game: only the
  two purchases call \<^verbatim>\<open>_check_game_end\<close>.
\<close>

lemma end_flags_only_change_on_purchase:
  assumes "execute_action rs g action = Inr (ok, g')"
    "\<forall>lvl cid. action \<noteq> BUY_CARD lvl cid" "\<forall>cid. action \<noteq> BUY_RESERVED_CARD cid"
  shows "game_over g' = game_over g \<and> last_round g' = last_round g
      \<and> last_player_index g' = last_player_index g \<and> winner g' = winner g"
  using assms
  by (cases action)
    (auto simp: execute_action_def ebind_def put_current_def Let_def split: sum.splits)

text \<open>
  The combinations are the sublists of the given length, each once when the
  list has no repetition.
\<close>

lemma Nil_subseq: "[] \<in> set (subseqs xs)"
  by (induction xs) (auto simp: Let_def)

lemma set_combinations: "set (combinations xs k) = {ys \<in> set (subseqs xs). length ys = k}"
proof (induction xs arbitrary: k)
  case Nil
  then show ?case by (cases k) auto
next
  case (Cons x xs)
  show ?case
  proof (cases k)
    case 0
    then show ?thesis using Nil_subseq[of xs] by (auto simp: Let_def)
  next
    case (Suc j)
    then show ?thesis using Cons[of j] Cons[of "Suc j"] by (auto simp: Let_def)
  qed
qed

lemma get_different_gems_actions_eq:
  "get_different_gems_actions g =
     (let av = filter (\<lambda>c. dget (board_gems (board g)) c > 0) basic_colors
      in if length av \<le> 3 then [TAKE_DIFFERENT_GEMS av]
         else map TAKE_DIFFERENT_GEMS (combinations av 3))"
  by (simp add: get_different_gems_actions_def)

section \<open>Bounds on the payment that need no affordability\<close>

lemma actual_cost_step_nonneg:
  assumes "\<forall>c. 0 \<le> dget (gems p) c" "\<forall>c. 0 \<le> dget ac c"
  shows "0 \<le> dget (actual_cost_step p d e ac) c"
proof (cases "snd e - dget d (fst e) > 0")
  case False
  then show ?thesis using assms(2) by (simp add: actual_cost_step_eq)
next
  case True
  let ?ac1 = "ac(fst e \<mapsto> min (snd e - dget d (fst e)) (dget (gems p) (fst e)))"
  have a1: "0 \<le> dget ?ac1 k" for k using assms True by simp
  show ?thesis
  proof (cases "gold_needed_for p d e > 0")
    case False
    then show ?thesis using True a1[of c] by (simp add: actual_cost_step_eq Let_def)
  next
    case g: True
    have "actual_cost_step p d e ac = ?ac1(GOLD \<mapsto> dget ?ac1 GOLD + gold_needed_for p d e)"
      using True g by (simp add: actual_cost_step_eq Let_def)
    moreover have "0 \<le> dget ?ac1 GOLD + gold_needed_for p d e" using a1[of GOLD] g by simp
    ultimately show ?thesis using a1[of c] by simp
  qed
qed

lemma actual_cost_fold_nonneg:
  assumes "\<forall>c. 0 \<le> dget (gems p) c" "\<forall>c. 0 \<le> dget ac c"
  shows "0 \<le> dget (fold (actual_cost_step p d) es ac) c"
  using assms(2)
proof (induction es arbitrary: ac)
  case Nil
  then show ?case by simp
next
  case (Cons e es)
  have "\<forall>k. 0 \<le> dget (actual_cost_step p d e ac) k"
    using actual_cost_step_nonneg[OF assms(1) Cons.prems] by blast
  from Cons.IH[OF this] show ?case by simp
qed

text \<open>
  C1.  The claim fails in the engine.  In the late game Alice, in seat 0 of
  two, buys \<open>L1_W4\<close> and reaches 15 points: the last round is triggered with
  her seat recorded, and the game is not over.  Bob, in the seat before hers,
  then completes his turn by taking three tokens: the call succeeds, the game
  is still not over, and play returns to Alice.  Only when Bob buys a card on
  that turn (\<open>L1_K4\<close>) does the game end.
\<close>

theorem last_round_ends_only_on_purchase:
  "(case execute_action [] late_game (BUY_CARD (Some 1) (Some ''L1_W4'')) of
      Inl e \<Rightarrow> None
    | Inr (ok1, g1) \<Rightarrow>
        (case next_player g1 of
           Inl e \<Rightarrow> None
         | Inr g2 \<Rightarrow>
             (case (execute_action [] g2 (TAKE_DIFFERENT_GEMS [WHITE, RED, BLACK]),
                    execute_action [] g2 (BUY_CARD (Some 1) (Some ''L1_K4''))) of
                (Inr (ok2, g3), Inr (ok3, g4)) \<Rightarrow>
                  (case next_player g3 of
                     Inl e \<Rightarrow> None
                   | Inr g5 \<Rightarrow>
                       Some (ok1, get_score (players g1 ! 0), last_round g1, last_player_index g1,
                             game_over g1, current_player_index g2,
                             ok2, game_over g3, current_player_index g5,
                             ok3, game_over g4))
              | _ \<Rightarrow> None)))
   = Some (True, 15, True, Some 0, False, 1, True, False, 0, True, True)"
  by code_simp

text \<open>
  C10 (amended).  On a board with the levels 1, 2, 3 and for each of these levels: if no
  displayed card of the level has the id, \<^verbatim>\<open>remove_displayed_card\<close> returns
  \<open>None\<close> and the board as it was; otherwise it returns the first displayed
  card of the level with the id, the level's display loses exactly that
  position and is then topped up from the level's deck, the other levels are
  topped up from their own decks (which changes nothing where four cards are
  displayed or the deck is empty), and pool and nobles stay as they were.
\<close>

theorem remove_displayed_card_spec:
  assumes "board_levels b" and "lvl \<in> {1, 2, 3}"
  shows "(cid \<notin> card_id ` set (disp_of b lvl) \<longrightarrow> remove_displayed_card b lvl cid = Inr (None, b))
     \<and> (cid \<in> card_id ` set (disp_of b lvl) \<longrightarrow>
         (\<exists>i b'. i < length (disp_of b lvl) \<and> card_id (disp_of b lvl ! i) = cid
            \<and> (\<forall>j<i. card_id (disp_of b lvl ! j) \<noteq> cid)
            \<and> remove_displayed_card b lvl cid = Inr (Some (disp_of b lvl ! i), b')
            \<and> board_gems b' = board_gems b \<and> board_nobles b' = board_nobles b
            \<and> (disp_of b' lvl, deck_of b' lvl)
                 = topped_up (pop_at i (disp_of b lvl)) (deck_of b lvl)
            \<and> (\<forall>l\<in>{1, 2, 3}. l \<noteq> lvl \<longrightarrow>
                  (disp_of b' l, deck_of b' l) = topped_up (disp_of b l) (deck_of b l))
            \<and> (\<forall>l\<in>{1, 2, 3}. l \<noteq> lvl \<and> (4 \<le> length (disp_of b l) \<or> deck_of b l = []) \<longrightarrow>
                  disp_of b' l = disp_of b l \<and> deck_of b' l = deck_of b l)))"
proof (intro conjI impI)
  assume "cid \<notin> card_id ` set (disp_of b lvl)"
  then show "remove_displayed_card b lvl cid = Inr (None, b)"
    by (rule remove_displayed_card_absent[OF board_levels_keys(1)[OF assms]])
next
  assume "cid \<in> card_id ` set (disp_of b lvl)"
  then have "\<exists>x\<in>set (disp_of b lvl). card_id x = cid" by auto
  then obtain i where i: "find_index (\<lambda>c. card_id c = cid) (disp_of b lvl) = Some i"
    using find_index_exists[of "disp_of b lvl" "\<lambda>c. card_id c = cid"] by blast
  from remove_displayed_card_found[OF assms i] obtain b' where b':
    "remove_displayed_card b lvl cid = Inr (Some (disp_of b lvl ! i), b')"
    "board_gems b' = board_gems b" "board_nobles b' = board_nobles b"
    "(disp_of b' lvl, deck_of b' lvl) = topped_up (pop_at i (disp_of b lvl)) (deck_of b lvl)"
    "\<forall>l\<in>{1, 2, 3}. l \<noteq> lvl \<longrightarrow> (disp_of b' l, deck_of b' l) = topped_up (disp_of b l) (deck_of b l)"
    by blast
  have sat: "disp_of b' l = disp_of b l \<and> deck_of b' l = deck_of b l"
    if "l \<in> {1, 2, 3}" "l \<noteq> lvl" "4 \<le> length (disp_of b l) \<or> deck_of b l = []" for l
  proof -
    have "(disp_of b' l, deck_of b' l) = topped_up (disp_of b l) (deck_of b l)"
      using b'(5) that(1,2) by blast
    then show ?thesis using topped_up_full[OF that(3)] by simp
  qed
  note fi = find_index_Some[OF i]
  show "\<exists>i b'. i < length (disp_of b lvl) \<and> card_id (disp_of b lvl ! i) = cid
            \<and> (\<forall>j<i. card_id (disp_of b lvl ! j) \<noteq> cid)
            \<and> remove_displayed_card b lvl cid = Inr (Some (disp_of b lvl ! i), b')
            \<and> board_gems b' = board_gems b \<and> board_nobles b' = board_nobles b
            \<and> (disp_of b' lvl, deck_of b' lvl)
                 = topped_up (pop_at i (disp_of b lvl)) (deck_of b lvl)
            \<and> (\<forall>l\<in>{1, 2, 3}. l \<noteq> lvl \<longrightarrow>
                  (disp_of b' l, deck_of b' l) = topped_up (disp_of b l) (deck_of b l))
            \<and> (\<forall>l\<in>{1, 2, 3}. l \<noteq> lvl \<and> (4 \<le> length (disp_of b l) \<or> deck_of b l = []) \<longrightarrow>
                  disp_of b' l = disp_of b l \<and> deck_of b' l = deck_of b l)"
  proof (intro exI[of _ i] exI[of _ b'] conjI)
    show "i < length (disp_of b lvl)" using fi by simp
    show "card_id (disp_of b lvl ! i) = cid" using fi by simp
    show "\<forall>j<i. card_id (disp_of b lvl ! j) \<noteq> cid" using fi by simp
    show "remove_displayed_card b lvl cid = Inr (Some (disp_of b lvl ! i), b')" by (rule b'(1))
    show "board_gems b' = board_gems b" by (rule b'(2))
    show "board_nobles b' = board_nobles b" by (rule b'(3))
    show "(disp_of b' lvl, deck_of b' lvl) = topped_up (pop_at i (disp_of b lvl)) (deck_of b lvl)"
      by (rule b'(4))
    show "\<forall>l\<in>{1, 2, 3}. l \<noteq> lvl \<longrightarrow>
                  (disp_of b' l, deck_of b' l) = topped_up (disp_of b l) (deck_of b l)"
      by (rule b'(5))
    show "\<forall>l\<in>{1, 2, 3}. l \<noteq> lvl \<and> (4 \<le> length (disp_of b l) \<or> deck_of b l = []) \<longrightarrow>
                  disp_of b' l = disp_of b l \<and> deck_of b' l = deck_of b l"
      using sat by blast
  qed
qed

theorem remove_displayed_card_spec_witness:
  "board_levels late_board
   \<and> ''L1_W4'' \<in> card_id ` set (disp_of late_board 1)
   \<and> (\<exists>i b'. i < length (disp_of late_board 1) \<and> card_id (disp_of late_board 1 ! i) = ''L1_W4''
         \<and> remove_displayed_card late_board 1 ''L1_W4'' = Inr (Some (disp_of late_board 1 ! i), b')
         \<and> board_gems b' = board_gems late_board
         \<and> (disp_of b' 1, deck_of b' 1)
              = topped_up (pop_at i (disp_of late_board 1)) (deck_of late_board 1))
   \<and> map card_id (fst (topped_up (pop_at 3 (disp_of late_board 1)) (deck_of late_board 1)))
       = [''L1_K4'', ''L1_K3'', ''L1_K2'', ''L1_K1'']
   \<and> ''L1_W1'' \<notin> card_id ` set (disp_of late_board 1)
   \<and> remove_displayed_card late_board 1 ''L1_W1'' = Inr (None, late_board)"
proof -
  have l: "(1::int) \<in> {1, 2, 3}" by simp
  have m: "''L1_W4'' \<in> card_id ` set (disp_of late_board 1)" by code_simp
  have n: "''L1_W1'' \<notin> card_id ` set (disp_of late_board 1)" by code_simp
  have t: "map card_id (fst (topped_up (pop_at 3 (disp_of late_board 1)) (deck_of late_board 1)))
       = [''L1_K4'', ''L1_K3'', ''L1_K2'', ''L1_K1'']"
    by code_simp
  note s = remove_displayed_card_spec[OF late_board_levels l]
  from s[of "''L1_W4''"] m obtain i b' where f:
    "i < length (disp_of late_board 1)" "card_id (disp_of late_board 1 ! i) = ''L1_W4''"
    "remove_displayed_card late_board 1 ''L1_W4'' = Inr (Some (disp_of late_board 1 ! i), b')"
    "board_gems b' = board_gems late_board"
    "(disp_of b' 1, deck_of b' 1) = topped_up (pop_at i (disp_of late_board 1)) (deck_of late_board 1)"
    by blast
  from s[of "''L1_W1''"] n have a: "remove_displayed_card late_board 1 ''L1_W1'' = Inr (None, late_board)"
    by blast
  have ex: "\<exists>i b'. i < length (disp_of late_board 1) \<and> card_id (disp_of late_board 1 ! i) = ''L1_W4''
         \<and> remove_displayed_card late_board 1 ''L1_W4'' = Inr (Some (disp_of late_board 1 ! i), b')
         \<and> board_gems b' = board_gems late_board
         \<and> (disp_of b' 1, deck_of b' 1)
              = topped_up (pop_at i (disp_of late_board 1)) (deck_of late_board 1)"
    using f by blast
  show ?thesis
    by (intro conjI) (rule late_board_levels m ex t n a)+
qed

text \<open>
  C10 as stated, for every level, fails: the late board displays nothing at
  level 4, which is no key of \<^verbatim>\<open>displayed_cards\<close>, and
  \<^verbatim>\<open>remove_displayed_card\<close> raises \<open>KeyError\<close> there instead of returning \<open>None\<close>.
\<close>

theorem remove_displayed_card_level_4_counterexample:
  "''L1_W1'' \<notin> card_id ` set (disp_of late_board 4)
   \<and> remove_displayed_card late_board 4 ''L1_W1'' \<noteq> Inr (None, late_board)
   \<and> remove_displayed_card late_board 4 ''L1_W1'' = Inl KeyError"
proof -
  have k: "displayed_cards late_board 4 = None" by (simp add: late_board_def)
  then have a: "''L1_W1'' \<notin> card_id ` set (disp_of late_board 4)"
    by (simp add: disp_of_def level_get_def)
  have b: "remove_displayed_card late_board 4 ''L1_W1'' = Inl KeyError"
    using k by (simp add: remove_displayed_card_def)
  show ?thesis using a b by simp
qed

text \<open>
  C2 (amended).  For every player whose token counts are non-negative and
  every card, no entry of the payment that \<^verbatim>\<open>get_actual_cost\<close> returns is
  negative and no entry of a colour other than Gold exceeds the tokens held
  of that colour.  When moreover the player can afford the card, whose cost
  has no entry for Gold, the Gold entry does not exceed the Gold held and is
  the sum of the Gold applied to the single colours; and then, the cost
  having one entry per colour, for every colour of the cost the discount, the
  payment in the colour and the Gold applied to it cover the listed cost.
\<close>

theorem get_actual_cost_bounds:
  assumes "\<forall>c. 0 \<le> dget (gems p) c"
  shows "(\<forall>c. 0 \<le> dget (get_actual_cost p crd) c)
       \<and> (\<forall>c. c \<noteq> GOLD \<longrightarrow> dget (get_actual_cost p crd) c \<le> dget (gems p) c)
       \<and> (can_afford_card p crd \<and> GOLD \<notin> fst ` set (cost crd) \<longrightarrow>
            dget (get_actual_cost p crd) GOLD \<le> dget (gems p) GOLD
            \<and> dget (get_actual_cost p crd) GOLD
                = sum_list (map (gold_needed_for p (get_card_discounts p)) (cost crd)))
       \<and> (can_afford_card p crd \<and> GOLD \<notin> fst ` set (cost crd) \<and> distinct (map fst (cost crd)) \<longrightarrow>
            (\<forall>(c, n)\<in>set (cost crd).
               n \<le> dget (get_card_discounts p) c + dget (get_actual_cost p crd) c
                    + gold_needed_for p (get_card_discounts p) (c, n)))"
proof (intro conjI allI impI)
  fix c
  show "0 \<le> dget (get_actual_cost p crd) c"
    unfolding get_actual_cost_def by (rule actual_cost_fold_nonneg[OF assms]) simp
next
  fix c :: GemColor
  assume c: "c \<noteq> GOLD"
  have "0 \<le> dget (fold (actual_cost_step p (get_card_discounts p)) (cost crd) Map.empty) c
      \<and> dget (fold (actual_cost_step p (get_card_discounts p)) (cost crd) Map.empty) c
          \<le> dget (gems p) c"
    by (rule actual_cost_fold_range[OF c assms]) (use assms in simp_all)
  then show "dget (get_actual_cost p crd) c \<le> dget (gems p) c"
    by (simp add: get_actual_cost_def)
next
  assume a: "can_afford_card p crd \<and> GOLD \<notin> fst ` set (cost crd)"
  then have af: "can_afford_card p crd" and ng: "GOLD \<notin> fst ` set (cost crd)" by simp_all
  show "dget (get_actual_cost p crd) GOLD \<le> dget (gems p) GOLD"
    by (rule actual_cost_within_holdings(2)[OF af assms ng])
  show "dget (get_actual_cost p crd) GOLD
      = sum_list (map (gold_needed_for p (get_card_discounts p)) (cost crd))"
    unfolding get_actual_cost_def using actual_cost_fold_gold[OF ng assms] by simp
next
  assume a: "can_afford_card p crd \<and> GOLD \<notin> fst ` set (cost crd) \<and> distinct (map fst (cost crd))"
  then have af: "can_afford_card p crd" and ng: "GOLD \<notin> fst ` set (cost crd)"
    and di: "distinct (map fst (cost crd))"
    by simp_all
  show "\<forall>(c, n)\<in>set (cost crd).
          n \<le> dget (get_card_discounts p) c + dget (get_actual_cost p crd) c
               + gold_needed_for p (get_card_discounts p) (c, n)"
    using actual_cost_covers[OF af assms ng di] by blast
qed

theorem get_actual_cost_bounds_witness:
  "can_afford_card gold_payer card_L1_W4
   \<and> 0 \<le> dget (get_actual_cost gold_payer card_L1_W4) BLUE
   \<and> dget (get_actual_cost gold_payer card_L1_W4) BLUE \<le> dget (gems gold_payer) BLUE
   \<and> dget (get_actual_cost gold_payer card_L1_W4) BLUE = 2
   \<and> dget (get_actual_cost gold_payer card_L1_W4) GOLD = 2
   \<and> dget (get_actual_cost gold_payer card_L1_W4) GOLD \<le> dget (gems gold_payer) GOLD
   \<and> 4 \<le> dget (get_card_discounts gold_payer) BLUE
          + dget (get_actual_cost gold_payer card_L1_W4) BLUE
          + gold_needed_for gold_payer (get_card_discounts gold_payer) (BLUE, 4)"
proof -
  have nc: "cards gold_payer = []" by (simp add: gold_payer_def new_player_def)
  have g: "gems gold_payer = [WHITE \<mapsto> 0, BLUE \<mapsto> 2, GREEN \<mapsto> 0, RED \<mapsto> 0, BLACK \<mapsto> 0, GOLD \<mapsto> 2]"
    by (simp add: gold_payer_def)
  have h1: "can_afford_card gold_payer card_L1_W4"
    by (simp add: can_afford_card_iff shortfall_def example_cards no_cards_discounts[OF nc] g)
  have h2: "\<forall>c. 0 \<le> dget (gems gold_payer) c"
  proof
    fix c show "0 \<le> dget (gems gold_payer) c" by (cases c) (simp_all add: g)
  qed
  have h3: "GOLD \<notin> fst ` set (cost card_L1_W4)" by (simp add: example_cards)
  have h4: "distinct (map fst (cost card_L1_W4))" by (simp add: example_cards)
  have mem: "(BLUE, 4) \<in> set (cost card_L1_W4)" by (simp add: example_cards)
  have gn: "gold_needed_for gold_payer (get_card_discounts gold_payer) (BLUE, 4) = 2"
    by (simp add: gold_needed_for_def no_cards_discounts[OF nc] g)
  have b: "dget (get_actual_cost gold_payer card_L1_W4) BLUE = 2"
    by (simp add: get_actual_cost_def actual_cost_step_eq example_cards no_cards_discounts[OF nc] g gn)
  note t = get_actual_cost_bounds[OF h2, of card_L1_W4]
  from t have lo: "0 \<le> dget (get_actual_cost gold_payer card_L1_W4) BLUE" by blast
  from t have hi: "dget (get_actual_cost gold_payer card_L1_W4) BLUE \<le> dget (gems gold_payer) BLUE"
    by blast
  from t h1 h3 have le: "dget (get_actual_cost gold_payer card_L1_W4) GOLD \<le> dget (gems gold_payer) GOLD"
    by blast
  from t h1 h3 have "dget (get_actual_cost gold_payer card_L1_W4) GOLD
      = sum_list (map (gold_needed_for gold_payer (get_card_discounts gold_payer)) (cost card_L1_W4))"
    by blast
  then have gold: "dget (get_actual_cost gold_payer card_L1_W4) GOLD = 2"
    using gn by (simp add: example_cards)
  from t h1 h3 h4 mem have cover: "4 \<le> dget (get_card_discounts gold_payer) BLUE
          + dget (get_actual_cost gold_payer card_L1_W4) BLUE
          + gold_needed_for gold_payer (get_card_discounts gold_payer) (BLUE, 4)"
    by blast
  show ?thesis
    by (intro conjI) (rule h1 lo hi b gold le cover)+
qed

text \<open>
  C2 as stated, for every player and every card, fails: a player without
  cards who holds a single Gold token cannot afford \<open>L1_W1\<close>, and the payment
  computed for it has the Gold entry 4, one for each of the four colours of
  the cost, against the one Gold token held.
\<close>

theorem get_actual_cost_exceeds_gold_counterexample:
  "\<not> dget (get_actual_cost one_gold card_L1_W1) GOLD \<le> dget (gems one_gold) GOLD"
proof -
  have nc: "cards one_gold = []" by (simp add: one_gold_def new_player_def)
  have g: "gems one_gold = [WHITE \<mapsto> 0, BLUE \<mapsto> 0, GREEN \<mapsto> 0, RED \<mapsto> 0, BLACK \<mapsto> 0, GOLD \<mapsto> 1]"
    by (simp add: one_gold_def)
  have "dget (get_actual_cost one_gold card_L1_W1) GOLD = 4"
    by (simp add: get_actual_cost_def actual_cost_step_def example_cards
        no_cards_discounts[OF nc] g Let_def)
  then show ?thesis by (simp add: g)
qed

text \<open>
  C3.  In every reachable game and for every colour, the pool count plus the
  sum of all players' holdings of the colour is the supply the game started
  with for its number of players.
\<close>

theorem token_conservation:
  assumes "reachable g"
  shows "dget (board_gems (board g)) c + sum_list (map (\<lambda>p. dget (gems p) c) (players g))
       = dget (initialize_gems (num_players g)) c"
proof -
  have inv: "game_inv g" by (rule reachable_game_inv[OF assms])
  then have "token_supply g c = dget (initialize_gems (length (players g))) c"
    by (simp add: game_inv_def)
  moreover have "num_players g = length (players g)" using inv by (simp add: game_inv_def)
  ultimately show ?thesis by (simp add: token_supply_def)
qed

theorem token_conservation_witness:
  "reachable nine_tokens_game
   \<and> dget (board_gems (board nine_tokens_game)) WHITE = 1
   \<and> sum_list (map (\<lambda>p. dget (gems p) WHITE) (players nine_tokens_game)) = 3
   \<and> dget (board_gems (board nine_tokens_game)) WHITE
       + sum_list (map (\<lambda>p. dget (gems p) WHITE) (players nine_tokens_game))
     = dget (initialize_gems (num_players nine_tokens_game)) WHITE"
proof -
  have a: "dget (board_gems (board nine_tokens_game)) WHITE = 1" by code_simp
  have b: "sum_list (map (\<lambda>p. dget (gems p) WHITE) (players nine_tokens_game)) = 3" by code_simp
  show ?thesis
    using token_conservation[OF reachable_nine_tokens_game, of WHITE] reachable_nine_tokens_game a b
    by blast
qed

text \<open>
  C4.  In every reachable game each catalog card lies in exactly one place:
  counted over its level's deck, its level's displayed slots, all reserved
  lists and all owned lists, it occurs once.  Reachability is closed under
  every call of \<^verbatim>\<open>execute_action\<close>, so buying, reserving from the display or
  from the top of a deck, and the replenishment they trigger keep it so.
\<close>

theorem catalog_card_in_one_place:
  assumes "reachable g" and "c \<in> set create_standard_cards"
  shows "card_locations g c = 1"
  by (rule game_inv_card_locations[OF reachable_game_inv[OF assms(1)] assms(2)])

theorem catalog_card_in_one_place_witness:
  "reachable nine_tokens_game \<and> card_L1_W4 \<in> set create_standard_cards
   \<and> card_locations nine_tokens_game card_L1_W4 = 1
   \<and> count_list (deck_of (board nine_tokens_game) 1) card_L1_W4 = 1"
proof -
  have m: "card_L1_W4 \<in> set create_standard_cards" by code_simp
  have d: "count_list (deck_of (board nine_tokens_game) 1) card_L1_W4 = 1" by code_simp
  show ?thesis
    using catalog_card_in_one_place[OF reachable_nine_tokens_game m] reachable_nine_tokens_game m d
    by blast
qed

text \<open>
  C5.  When every score is non-negative (card and noble points are), the
  winner list that \<^verbatim>\<open>_determine_winner\<close> stores is the list of the players, in
  seating order, whose score is the maximum score and whose number of owned
  cards is the least among the players with the maximum score.  So of two top
  scorers the one with fewer cards wins alone, and top scorers with equally
  few cards win together.
\<close>

theorem determine_winner_max_score_min_cards:
  assumes "\<forall>p\<in>set (players g). 0 \<le> get_score p"
  shows "winner (determine_winner g) =
    Some (filter (\<lambda>p. get_score p = Max (get_score ` set (players g))
                  \<and> length (cards p) =
                      Min ((\<lambda>q. length (cards q)) `
                        {q \<in> set (players g). get_score q = Max (get_score ` set (players g))}))
           (players g))"
proof -
  obtain ms mc pw where run: "potential_winners (players g) (- 1) \<infinity> [] = (ms, mc, pw)"
    by (metis prod_cases3)
  have inv: "pw = filter (\<lambda>p. get_score p = ms) (players g)
       \<and> (\<forall>p\<in>set (players g). get_score p \<le> ms)
       \<and> (ms = - 1 \<or> ms \<in> get_score ` set (players g))
       \<and> mc = (if pw = [] then \<infinity> else enat (Min ((\<lambda>p. length (cards p)) ` set pw)))"
    using potential_winners_scan[OF run, of "[]"] by simp
  have w: "winner (determine_winner g) =
      Some (filter (\<lambda>p. get_score p = ms \<and> enat (length (cards p)) = mc) pw)"
    by (simp add: determine_winner_def run)
  show ?thesis
  proof (cases "players g = []")
    case True
    then show ?thesis using w inv by simp
  next
    case False
    then obtain q where q: "q \<in> set (players g)" by (cases "players g") auto
    then have "0 \<le> ms" using inv assms by force
    then have "ms \<in> get_score ` set (players g)" using inv by auto
    then have ms: "ms = Max (get_score ` set (players g))"
      using inv by (intro Max_eqI[symmetric]) auto
    have pwset: "set pw = {q \<in> set (players g). get_score q = ms}"
      using inv by auto
    have "filter (\<lambda>p. get_score p = ms \<and> enat (length (cards p)) = mc) pw
        = filter (\<lambda>p. get_score p = ms \<and> length (cards p) =
                      Min ((\<lambda>q. length (cards q)) ` {q \<in> set (players g). get_score q = ms}))
           (players g)"
    proof -
      have "filter (\<lambda>p. get_score p = ms \<and> enat (length (cards p)) = mc) pw
          = filter (\<lambda>p. get_score p = ms \<and> enat (length (cards p)) = mc) (players g)"
        using inv by (simp add: conj_commute cong: conj_cong)
      also have "\<dots> = filter (\<lambda>p. get_score p = ms \<and> length (cards p) =
                      Min ((\<lambda>q. length (cards q)) ` {q \<in> set (players g). get_score q = ms}))
           (players g)"
      proof (rule filter_cong[OF refl])
        fix p assume p: "p \<in> set (players g)"
        show "(get_score p = ms \<and> enat (length (cards p)) = mc) =
              (get_score p = ms \<and> length (cards p) =
                 Min ((\<lambda>q. length (cards q)) ` {q \<in> set (players g). get_score q = ms}))"
        proof (cases "get_score p = ms")
          case True
          then have "p \<in> set pw" using p pwset by simp
          then have "pw \<noteq> []" by auto
          then have "mc = enat (Min ((\<lambda>p. length (cards p)) ` set pw))" using inv by simp
          then show ?thesis using pwset by simp
        next
          case False
          then show ?thesis by simp
        qed
      qed
      finally show ?thesis .
    qed
    then show ?thesis using w ms by simp
  qed
qed

theorem determine_winner_max_score_min_cards_witness:
  "0 \<le> get_score late_alice \<and> 0 \<le> get_score late_bob
   \<and> winner (determine_winner late_game) = Some [late_alice]"
proof -
  have ps: "players late_game = [late_alice, late_bob]" by (simp add: late_game_def)
  have h: "\<forall>p\<in>set (players late_game). 0 \<le> get_score p"
    by (simp add: ps late_scores)
  have neq: "late_alice \<noteq> late_bob"
    by (simp add: late_alice_def late_bob_def new_player_def)
  have "{q. (q = late_alice \<or> q = late_bob) \<and> get_score q = 14} = {late_alice, late_bob}"
    using late_scores by auto
  then show ?thesis
    using determine_winner_max_score_min_cards[OF h] h neq
    by (simp add: ps late_scores)
qed

text \<open>
  C6.  The claim fails in the engine.  In the stuck game no colour is
  available, no pair can be taken, Alice cannot reserve and can afford no
  card, yet the list of valid actions is not empty: it holds one action that
  takes no colours.  \<^verbatim>\<open>play_round\<close> therefore does not skip the turn: it
  executes that action, which fails and is recorded in the history, and
  returns \<open>False\<close> with Alice still the current player.
\<close>

theorem stuck_game_valid_actions_not_empty:
  "get_valid_actions stuck_game = Inr [TAKE_DIFFERENT_GEMS []]
   \<and> (case play_round 0 [] stuck_game of
         Inl e \<Rightarrow> None
       | Inr (r, g') \<Rightarrow> Some (r, current_player_index g', map h_action (history g')))
     = Some (False, 0, [TAKE_DIFFERENT_GEMS []])"
  by code_simp

text \<open>
  C7.  The claim fails in the engine.  In a new game a take-different-gems
  action for the single colour Gold succeeds and moves one Gold token from
  the pool to the player, and one naming White twice succeeds and moves one
  White token.
\<close>

theorem take_different_accepts_gold_and_repeats:
  "(case execute_action [] new_game (TAKE_DIFFERENT_GEMS [GOLD]) of
      Inl e \<Rightarrow> None
    | Inr (ok, g') \<Rightarrow>
        Some (ok, dget (board_gems (board new_game)) GOLD, dget (board_gems (board g')) GOLD,
              dget (gems (players g' ! 0)) GOLD))
   = Some (True, 5, 4, 1)
   \<and> (case execute_action [] new_game (TAKE_DIFFERENT_GEMS [WHITE, WHITE]) of
      Inl e \<Rightarrow> None
    | Inr (ok, g') \<Rightarrow>
        Some (ok, dget (board_gems (board new_game)) WHITE, dget (board_gems (board g')) WHITE,
              dget (gems (players g' ! 0)) WHITE))
   = Some (True, 4, 3, 1)"
  by code_simp

text \<open>
  C8.  In a reachable game every call of \<^verbatim>\<open>execute_action\<close> returns, with
  \<open>True\<close> or \<open>False\<close> and without an exception; the history afterwards is the
  history before with one record appended (round number, id of the acting
  player, the action); and when the result is \<open>False\<close> the board and the list
  of players are as before.
\<close>

theorem execute_action_failure_contract:
  assumes "reachable g"
  shows "\<exists>ok g'. execute_action rs g action = Inr (ok, g')
      \<and> history g' = history g @
           [\<lparr>h_round = round_number g,
             h_player = player_id (players g ! current_player_index g), h_action = action\<rparr>]
      \<and> (\<not> ok \<longrightarrow> board g' = board g \<and> players g' = players g)"
  using execute_action_effect[OF reachable_game_inv[OF assms], of rs action] by blast

theorem execute_action_failure_contract_witness:
  "reachable new_game
   \<and> (case execute_action [] new_game (BUY_CARD (Some 1) (Some ''L1_K4'')) of
        Inr (ok, g') \<Rightarrow> ok | Inl e \<Rightarrow> True) = False
   \<and> (\<exists>g'. execute_action [] new_game (BUY_CARD (Some 1) (Some ''L1_K4'')) = Inr (False, g')
        \<and> history g' = history new_game @
            [\<lparr>h_round = round_number new_game,
              h_player = player_id (players new_game ! current_player_index new_game),
              h_action = BUY_CARD (Some 1) (Some ''L1_K4'')\<rparr>]
        \<and> board g' = board new_game \<and> players g' = players new_game)"
proof -
  let ?a = "BUY_CARD (Some 1) (Some ''L1_K4'')"
  have f: "(case execute_action [] new_game ?a of Inr (ok, g') \<Rightarrow> ok | Inl e \<Rightarrow> True) = False"
    by code_simp
  from execute_action_failure_contract[OF reachable_new_game, of "[]" ?a]
  obtain ok g' where r: "execute_action [] new_game ?a = Inr (ok, g')"
    "history g' = history new_game @
            [\<lparr>h_round = round_number new_game,
              h_player = player_id (players new_game ! current_player_index new_game),
              h_action = ?a\<rparr>]"
    "\<not> ok \<longrightarrow> board g' = board new_game \<and> players g' = players new_game"
    by blast
  have nok: "\<not> ok" using f r(1) by simp
  then have run: "execute_action [] new_game ?a = Inr (False, g')" using r(1) by simp
  have same: "board g' = board new_game" "players g' = players new_game" using r(3) nok by simp_all
  show ?thesis
    by (intro conjI exI[of _ g']) (rule reachable_new_game f run r(2) same)+
qed

text \<open>
  C9.  When a call of \<^verbatim>\<open>execute_action\<close> in a reachable game succeeds, the
  current player holds at most ten tokens afterwards, Gold included; and when
  the action was to take two tokens of one colour and the player held nine
  tokens before, the player holds exactly ten afterwards.
\<close>

theorem tokens_at_most_ten_after_turn:
  assumes "reachable g" and "execute_action rs g action = Inr (True, g')"
  shows "get_total_gems (players g' ! current_player_index g') \<le> 10
     \<and> ((\<exists>col. action = TAKE_SAME_GEMS col)
          \<and> get_total_gems (players g ! current_player_index g) = 9
         \<longrightarrow> get_total_gems (players g' ! current_player_index g') = 10)"
proof
  have "reachable g'" by (rule reachable_execute[OF assms])
  then have inv': "game_inv g'" by (rule reachable_game_inv)
  then have "player_ok (players g' ! current_player_index g')" by (rule game_inv_current(2))
  then show "get_total_gems (players g' ! current_player_index g') \<le> 10"
    by (simp add: player_ok_def total_gems_eq)
  show "(\<exists>col. action = TAKE_SAME_GEMS col)
          \<and> get_total_gems (players g ! current_player_index g) = 9
         \<longrightarrow> get_total_gems (players g' ! current_player_index g') = 10"
  proof
    assume a: "(\<exists>col. action = TAKE_SAME_GEMS col)
          \<and> get_total_gems (players g ! current_player_index g) = 9"
    then obtain col where col: "action = TAKE_SAME_GEMS col" by blast
    from take_same_nine_to_ten[OF reachable_game_inv[OF assms(1)] assms(2)[unfolded col]] a
    show "get_total_gems (players g' ! current_player_index g') = 10" by simp
  qed
qed

theorem tokens_at_most_ten_after_turn_witness:
  "reachable nine_tokens_game
   \<and> get_total_gems (players nine_tokens_game ! current_player_index nine_tokens_game) = 9
   \<and> (\<exists>g'. execute_action [] nine_tokens_game (TAKE_SAME_GEMS (Some RED)) = Inr (True, g')
         \<and> get_total_gems (players g' ! current_player_index g') = 10)"
proof -
  let ?a = "TAKE_SAME_GEMS (Some RED)"
  have nine: "get_total_gems (players nine_tokens_game ! current_player_index nine_tokens_game) = 9"
    by code_simp
  have ok: "(case execute_action [] nine_tokens_game ?a of Inr (ok, g') \<Rightarrow> ok | Inl e \<Rightarrow> False)"
    by code_simp
  then obtain g' where run: "execute_action [] nine_tokens_game ?a = Inr (True, g')"
    by (cases "execute_action [] nine_tokens_game ?a") auto
  from tokens_at_most_ten_after_turn[OF reachable_nine_tokens_game run] nine
  have "get_total_gems (players g' ! current_player_index g') = 10" by blast
  then show ?thesis using reachable_nine_tokens_game nine run by blast
qed

end
